theory Spec2Isabelle
  imports Main
begin

section \<open>Data model\<close>

text \<open>
  The package \<^verbatim>\<open>sqlf\<close> builds parameterised SQL from a printf-style format string.
  A Go \<^verbatim>\<open>string\<close> is a sequence of bytes and so is an Isabelle \<open>string\<close>.
  Go's \<^verbatim>\<open>int\<close> is modelled by \<open>int\<close>; the only arithmetic on it is \<open>index - 1\<close>,
  \<open>argIdx + 1\<close> and \<open>currentImplicitArg++\<close>, all on values between \<open>-1\<close> and
  the largest \<^verbatim>\<open>int\<close>, and the increment is only ever reached with a value that is at
  most the number of arguments, so none of them wraps.

  An argument of \<^verbatim>\<open>Sprintf\<close> is an \<^verbatim>\<open>interface{}\<close>: the code only asks whether it is a
  \<^verbatim>\<open>*Query\<close>. A pointer is an address; the heap maps the addresses of the live
  \<^verbatim>\<open>Query\<close> objects to their contents, and an address outside its domain stands for the
  \<^verbatim>\<open>nil\<close> pointer, whose dereference panics.
\<close>

type_synonym addr = nat

record 'v Query =
  fmt :: string
  args :: "'v list"
  argIndices :: "int list option"

datatype 'v arg = Leaf 'v | QueryPtr addr

type_synonym 'v heap = "addr \<Rightarrow> 'v Query option"

text \<open>The struct \<^verbatim>\<open>directive\<close>; its field \<^verbatim>\<open>end\<close> is \<open>endpos\<close> here.\<close>

record directive =
  start :: nat
  endpos :: nat
  hasIndex :: bool
  index :: int
  isLiteral :: bool

text \<open>
  The panics of the package: the explicit one of \<^verbatim>\<open>sprintfExplicit\<close>, carrying the
  1-based index and the number of arguments that its message prints, and the two
  run-time panics of Go that the code can reach or must be shown not to reach.
  \<open>FmtBeyondModel\<close> is not a panic: it marks the calls of \<^verbatim>\<open>fmt.Sprintf\<close> whose text
  this development does not describe (see \<open>doPrintf\<close>).
\<close>

datatype failure =
  IndexOutOfRange int nat
| NilPointerDereference
| SliceBoundsOutOfRange
| FmtBeyondModel

section \<open>Decimal numbers\<close>

definition isDigit :: "char \<Rightarrow> bool" where
  "isDigit c = (c \<in> set ''0123456789'')"

definition digitVal :: "char \<Rightarrow> nat" where
  "digitVal c = of_char c - 48"

text \<open>
  \<^verbatim>\<open>strconv.Atoi\<close> on a non-empty string of digits (the only strings the scanner gives
  it): the decimal value, or the largest 64-bit \<^verbatim>\<open>int\<close> when the value does not fit
  (the error it returns with it is discarded by the caller).
\<close>

definition atoi :: "string \<Rightarrow> int" where
  "atoi s = min (foldl (\<lambda>n c. 10 * n + int (digitVal c)) 0 s) (2 ^ 63 - 1)"

fun natToDec :: "nat \<Rightarrow> string" where
  "natToDec n = (if n < 10 then [''0123456789'' ! n] else natToDec (n div 10) @ [''0123456789'' ! (n mod 10)])"

declare natToDec.simps [simp del]

text \<open>\<^verbatim>\<open>strconv.Itoa\<close>, which is also what the verb \<^verbatim>\<open>%d\<close> prints for an \<^verbatim>\<open>int\<close>.\<close>

definition itoa :: "int \<Rightarrow> string" where
  "itoa i = (if i < 0 then CHR ''-'' # natToDec (nat (- i)) else natToDec (nat i))"

text \<open>The text of the panic of \<^verbatim>\<open>sprintfExplicit\<close>.\<close>

fun panicMessage :: "failure \<Rightarrow> string" where
  "panicMessage (IndexOutOfRange i n) =
     ''sqlf.Sprintf: argument index ['' @ itoa i @ ''] out of range; have '' @ itoa (int n) @ '' args''"
| "panicMessage NilPointerDereference =
     ''runtime error: invalid memory address or nil pointer dereference''"
| "panicMessage SliceBoundsOutOfRange = ''runtime error: slice bounds out of range''"
| "panicMessage FmtBeyondModel = []"

section \<open>The directive scanner\<close>

text \<open>\<^verbatim>\<open>format[a:b]\<close>, for \<open>a \<le> b \<le> length format\<close>.\<close>

definition slice :: "string \<Rightarrow> nat \<Rightarrow> nat \<Rightarrow> string" where
  "slice format a b = take (b - a) (drop a format)"

text \<open>The loop \<^verbatim>\<open>for j < len(format) && format[j] >= '0' && format[j] <= '9' { j++ }\<close>.\<close>

definition skipDigits :: "string \<Rightarrow> nat \<Rightarrow> nat" where
  "skipDigits format j = j + length (takeWhile isDigit (drop j format))"

definition skipOptionalIndex :: "string \<Rightarrow> nat \<Rightarrow> nat" where
  "skipOptionalIndex format i =
     (if i < length format \<and> format ! i = CHR ''['' then
        (let j = skipDigits format (i + 1) in
         if j < length format \<and> format ! j = CHR '']'' \<and> j > i + 1 then j + 1 else i)
      else i)"

text \<open>The optional explicit argument index \<^verbatim>\<open>[n]\<close>; \<open>i < length format\<close> where it is called.\<close>

definition parseIndex :: "string \<Rightarrow> nat \<Rightarrow> bool \<times> int \<times> nat" where
  "parseIndex format i =
     (if format ! i = CHR ''['' then
        (let j = skipDigits format (i + 1) in
         if j < length format \<and> format ! j = CHR '']'' \<and> j > i + 1
         then (True, atoi (slice format (i + 1) j), j + 1)
         else (False, 0, i))
      else (False, 0, i))"

definition isFlag :: "char \<Rightarrow> bool" where
  "isFlag c = (c = CHR ''#'' \<or> c = CHR ''0'' \<or> c = CHR ''+'' \<or> c = CHR ''-'' \<or> c = CHR '' '' \<or> c = CHR 0x27)"

definition skipFlags :: "string \<Rightarrow> nat \<Rightarrow> nat" where
  "skipFlags format i = i + length (takeWhile isFlag (drop i format))"

definition skipWidth :: "string \<Rightarrow> nat \<Rightarrow> nat" where
  "skipWidth format i =
     (if i < length format \<and> format ! i = CHR ''*''
      then skipOptionalIndex format (i + 1)
      else skipDigits format i)"

definition skipPrecision :: "string \<Rightarrow> nat \<Rightarrow> nat" where
  "skipPrecision format i =
     (if i < length format \<and> format ! i = CHR ''.'' then
        (if i + 1 < length format \<and> format ! (i + 1) = CHR ''*''
         then skipOptionalIndex format (i + 2)
         else skipDigits format (i + 1))
      else i)"

text \<open>
  One round of the loop of \<^verbatim>\<open>parseDirectives\<close> that found the marker \<^verbatim>\<open>%\<close> at
  \<open>start\<close>: the directive it appends and the position the loop goes on from, or
  \<open>None\<close> when the string ends before the verb: then nothing is appended and the loop is
  over, through its \<^verbatim>\<open>break\<close> or through its condition.
\<close>

definition directiveAt :: "string \<Rightarrow> nat \<Rightarrow> (directive \<times> nat) option" where
  "directiveAt format st =
     (let i = st + 1 in
      if i \<ge> length format then None
      else if format ! i = CHR ''%'' then
        Some (\<lparr>start = st, endpos = i + 1, hasIndex = False, index = 0, isLiteral = True\<rparr>, i + 1)
      else
        (let (hasIdx, idx, i1) = parseIndex format i;
             i2 = skipFlags format i1;
             i3 = skipWidth format i2;
             i4 = skipPrecision format i3
         in if i4 < length format
            then Some (\<lparr>start = st, endpos = i4 + 1, hasIndex = hasIdx, index = idx, isLiteral = False\<rparr>, i4 + 1)
            else None))"

lemma skipDigits_ge: "j \<le> skipDigits format j"
  by (simp add: skipDigits_def)

lemma skipOptionalIndex_ge: "i \<le> skipOptionalIndex format i"
  using skipDigits_ge [of "i + 1" format]
  by (auto simp add: skipOptionalIndex_def Let_def)

lemma parseIndex_ge: "parseIndex format i = (h, n, j) \<Longrightarrow> i \<le> j"
  using skipDigits_ge [of "i + 1" format]
  by (auto simp add: parseIndex_def Let_def split: if_splits)

lemma skipFlags_ge: "i \<le> skipFlags format i"
  by (simp add: skipFlags_def)

lemma skipWidth_ge: "i \<le> skipWidth format i"
  using skipOptionalIndex_ge [of "i + 1" format] skipDigits_ge [of i format]
  by (auto simp add: skipWidth_def)

lemma skipPrecision_ge: "i \<le> skipPrecision format i"
  using skipOptionalIndex_ge [of "i + 2" format] skipDigits_ge [of "i + 1" format]
  by (auto simp add: skipPrecision_def)

lemma directiveAt_bounds:
  assumes "directiveAt format st = Some (d, i')"
  shows "st + 2 \<le> i' \<and> i' \<le> length format \<and> start d = st \<and> endpos d = i'"
proof (cases "st + 1 < length format \<and> format ! (st + 1) \<noteq> CHR ''%''")
  case False
  with assms show ?thesis
    by (auto simp add: directiveAt_def Let_def split: if_splits)
next
  case True
  obtain h n i1 where p: "parseIndex format (st + 1) = (h, n, i1)"
    by (cases "parseIndex format (st + 1)") auto
  have "st + 1 \<le> i1" using parseIndex_ge [OF p] .
  moreover have "i1 \<le> skipFlags format i1" by (rule skipFlags_ge)
  moreover have "skipFlags format i1 \<le> skipWidth format (skipFlags format i1)"
    by (rule skipWidth_ge)
  moreover have "skipWidth format (skipFlags format i1)
      \<le> skipPrecision format (skipWidth format (skipFlags format i1))"
    by (rule skipPrecision_ge)
  ultimately show ?thesis using assms True p
    by (auto simp add: directiveAt_def Let_def split: if_splits)
qed

function parseLoop :: "string \<Rightarrow> nat \<Rightarrow> directive list" where
  "parseLoop format i =
     (if \<not> i < length format then []
      else if format ! i \<noteq> CHR ''%'' then parseLoop format (i + 1)
      else (case directiveAt format i of
              None \<Rightarrow> []
            | Some (d, i') \<Rightarrow> d # parseLoop format i'))"
  by pat_completeness auto
termination
proof (relation "measure (\<lambda>(format, i). length format - i)")
  show "wf (measure (\<lambda>(format, i). length format - i))" by simp
next
  fix format :: string and i :: nat
  assume "\<not> \<not> i < length format"
  then show "((format, i + 1), (format, i)) \<in> measure (\<lambda>(format, i). length format - i)"
    by simp
next
  fix format :: string and i :: nat and x2 :: "directive \<times> nat" and d :: directive and i' :: nat
  assume a: "\<not> \<not> i < length format" "directiveAt format i = Some x2" "(d, i') = x2"
  then have "directiveAt format i = Some (d, i')" by simp
  from directiveAt_bounds [OF this] a(1)
  show "((format, i'), (format, i)) \<in> measure (\<lambda>(format, i). length format - i)"
    by auto
qed

declare parseLoop.simps [simp del]

definition parseDirectives :: "string \<Rightarrow> directive list" where
  "parseDirectives format = parseLoop format 0"

section \<open>Composition with explicit indices\<close>

text \<open>
  A slice of \<^verbatim>\<open>int\<close> that may be \<^verbatim>\<open>nil\<close>: \<open>None\<close> is the nil slice. The code tests
  \<^verbatim>\<open>argIndices != nil\<close>, and \<^verbatim>\<open>append\<close> of one element to a nil slice gives a slice
  that is not nil. \<open>appendInts s xs\<close> is the loop that appends the elements of \<open>xs\<close>
  to \<open>s\<close> one by one.
\<close>

fun elems :: "int list option \<Rightarrow> int list" where
  "elems None = []"
| "elems (Some xs) = xs"

fun appendInts :: "int list option \<Rightarrow> int list \<Rightarrow> int list option" where
  "appendInts s [] = s"
| "appendInts s (x # xs) = appendInts (Some (elems s @ [x])) xs"

text \<open>The struct \<^verbatim>\<open>nestedInfo\<close>.\<close>

record nestedInfo =
  info_offset :: int
  info_fmt :: string
  info_argIndices :: "int list"

text \<open>The local variables of \<^verbatim>\<open>sprintfExplicit\<close>.\<close>

record 'v composer =
  resultFmt :: string
  argIndicesAcc :: "int list option"
  resultArgs :: "'v list"
  argToResultPos :: "int \<Rightarrow> int option"
  nestedQueries :: "addr \<Rightarrow> nestedInfo option"
  lastEnd :: nat
  currentImplicitArg :: int

definition initialComposer :: "'v composer" where
  "initialComposer =
     \<lparr>resultFmt = [], argIndicesAcc = None, resultArgs = [],
      argToResultPos = (\<lambda>_. None), nestedQueries = (\<lambda>_. None),
      lastEnd = 0, currentImplicitArg = 0\<rparr>"

text \<open>
  Which argument a verb refers to: the resolved 0-based index and the new value of
  \<^verbatim>\<open>currentImplicitArg\<close>.
\<close>

definition resolveIndex :: "directive \<Rightarrow> int \<Rightarrow> int \<times> int" where
  "resolveIndex d cur = (if hasIndex d then (index d - 1, index d) else (cur, cur + 1))"

text \<open>The index list of a nested query: its own, or \<open>0, 1, ...\<close> for a legacy query.\<close>

definition normIndices :: "'v Query \<Rightarrow> int list" where
  "normIndices q = (case argIndices q of Some is \<Rightarrow> is | None \<Rightarrow> map int [0..<length (args q)])"

text \<open>The branch of the loop body for an argument that is a \<^verbatim>\<open>*Query\<close>.\<close>

definition composeNested :: "'v heap \<Rightarrow> addr \<Rightarrow> 'v composer \<Rightarrow> failure + 'v composer" where
  "composeNested heap p c =
     (case nestedQueries c p of
        Some info \<Rightarrow>
          Inr (c\<lparr>resultFmt := resultFmt c @ info_fmt info,
                 argIndicesAcc := appendInts (argIndicesAcc c)
                                    (map (\<lambda>qArgIdx. info_offset info + qArgIdx) (info_argIndices info))\<rparr>)
      | None \<Rightarrow>
          (case heap p of
             None \<Rightarrow> Inl NilPointerDereference
           | Some q \<Rightarrow>
               (let offset = int (length (resultArgs c));
                    qArgIndices = normIndices q
                in Inr (c\<lparr>resultFmt := resultFmt c @ fmt q,
                          argIndicesAcc := appendInts (argIndicesAcc c)
                                             (map (\<lambda>qArgIdx. offset + qArgIdx) qArgIndices),
                          resultArgs := resultArgs c @ args q,
                          nestedQueries := (nestedQueries c)
                            (p \<mapsto> \<lparr>info_offset = offset, info_fmt = fmt q,
                                   info_argIndices = qArgIndices\<rparr>)\<rparr>))))"

text \<open>The branch for a regular argument.\<close>

definition composeLeaf :: "int \<Rightarrow> 'v \<Rightarrow> 'v composer \<Rightarrow> 'v composer" where
  "composeLeaf argIdx v c =
     (case argToResultPos c argIdx of
        Some pos \<Rightarrow>
          c\<lparr>resultFmt := resultFmt c @ ''%s'',
            argIndicesAcc := Some (elems (argIndicesAcc c) @ [pos])\<rparr>
      | None \<Rightarrow>
          (let pos = int (length (resultArgs c))
           in c\<lparr>resultFmt := resultFmt c @ ''%s'',
                argToResultPos := (argToResultPos c)(argIdx \<mapsto> pos),
                resultArgs := resultArgs c @ [v],
                argIndicesAcc := Some (elems (argIndicesAcc c) @ [pos])\<rparr>))"

text \<open>
  The body of the loop over the directives. The two slices of \<^verbatim>\<open>format\<close> panic in Go
  when their bounds are out of order or beyond the string.
\<close>

definition composeStep ::
  "'v heap \<Rightarrow> string \<Rightarrow> 'v arg list \<Rightarrow> directive \<Rightarrow> 'v composer \<Rightarrow> failure + 'v composer" where
  "composeStep heap format as d c0 =
     (if start d < lastEnd c0 \<or> length format < start d then Inl SliceBoundsOutOfRange
      else
        (let c = c0\<lparr>resultFmt := resultFmt c0 @ slice format (lastEnd c0) (start d),
                    lastEnd := endpos d\<rparr>
         in if isLiteral d then Inr (c\<lparr>resultFmt := resultFmt c @ ''%%''\<rparr>)
            else
              (let (argIdx, next) = resolveIndex d (currentImplicitArg c);
                   c1 = c\<lparr>currentImplicitArg := next\<rparr>
               in if argIdx < 0 \<or> argIdx \<ge> int (length as)
                  then Inl (IndexOutOfRange (argIdx + 1) (length as))
                  else (case as ! nat argIdx of
                          QueryPtr p \<Rightarrow> composeNested heap p c1
                        | Leaf v \<Rightarrow> Inr (composeLeaf argIdx v c1)))))"

fun composeLoop ::
  "'v heap \<Rightarrow> string \<Rightarrow> 'v arg list \<Rightarrow> directive list \<Rightarrow> 'v composer \<Rightarrow> failure + 'v composer" where
  "composeLoop heap format as [] c = Inr c"
| "composeLoop heap format as (d # ds) c =
     (case composeStep heap format as d c of
        Inl e \<Rightarrow> Inl e
      | Inr c' \<Rightarrow> composeLoop heap format as ds c')"

definition sprintfExplicit :: "'v heap \<Rightarrow> string \<Rightarrow> 'v arg list \<Rightarrow> failure + 'v Query" where
  "sprintfExplicit heap format as =
     (case composeLoop heap format as (parseDirectives format) initialComposer of
        Inl e \<Rightarrow> Inl e
      | Inr c \<Rightarrow>
          if length format < lastEnd c then Inl SliceBoundsOutOfRange
          else Inr \<lparr>fmt = resultFmt c @ drop (lastEnd c) format,
                    args = resultArgs c,
                    argIndices = argIndicesAcc c\<rparr>)"

section \<open>Which path a composition takes\<close>

text \<open>
  The first loop of \<^verbatim>\<open>needsExplicitPath\<close> reads \<^verbatim>\<open>q.argIndices\<close> of every argument that
  is a \<^verbatim>\<open>*Query\<close>, up to the first that has one.
\<close>

fun anyIndexedArg :: "'v heap \<Rightarrow> 'v arg list \<Rightarrow> failure + bool" where
  "anyIndexedArg heap [] = Inr False"
| "anyIndexedArg heap (Leaf v # as) = anyIndexedArg heap as"
| "anyIndexedArg heap (QueryPtr p # as) =
     (case heap p of
        None \<Rightarrow> Inl NilPointerDereference
      | Some q \<Rightarrow> if argIndices q \<noteq> None then Inr True else anyIndexedArg heap as)"

definition needsExplicitPath :: "'v heap \<Rightarrow> string \<Rightarrow> 'v arg list \<Rightarrow> failure + bool" where
  "needsExplicitPath heap format as =
     (case anyIndexedArg heap as of
        Inl e \<Rightarrow> Inl e
      | Inr True \<Rightarrow> Inr True
      | Inr False \<Rightarrow> Inr (list_ex hasIndex (parseDirectives format)))"

section \<open>Join\<close>

text \<open>\<^verbatim>\<open>strings.Join\<close>.\<close>

fun stringsJoin :: "string list \<Rightarrow> string \<Rightarrow> string" where
  "stringsJoin [] sep = []"
| "stringsJoin [x] sep = x"
| "stringsJoin (x # y # ys) sep = x @ sep @ stringsJoin (y # ys) sep"

text \<open>The local variables of \<^verbatim>\<open>Join\<close> that its second loop changes.\<close>

record 'v joiner =
  join_f :: "string list"
  join_a :: "'v list"
  join_argIndices :: "int list option"
  join_offset :: int

definition joinStep :: "bool \<Rightarrow> 'v Query \<Rightarrow> 'v joiner \<Rightarrow> 'v joiner" where
  "joinStep hasExplicitIndices q j =
     \<lparr>join_f = join_f j @ [fmt q],
      join_a = join_a j @ args q,
      join_argIndices =
        (if hasExplicitIndices
         then appendInts (join_argIndices j) (map (\<lambda>idx. join_offset j + idx) (normIndices q))
         else join_argIndices j),
      join_offset = join_offset j + int (length (args q))\<rparr>"

fun joinLoop :: "bool \<Rightarrow> 'v Query list \<Rightarrow> 'v joiner \<Rightarrow> 'v joiner" where
  "joinLoop h [] j = j"
| "joinLoop h (q # qs) j = joinLoop h qs (joinStep h q j)"

text \<open>\<^verbatim>\<open>Join\<close> on the queries its pointers refer to.\<close>

definition joinQueries :: "'v Query list \<Rightarrow> string \<Rightarrow> 'v Query" where
  "joinQueries qs sep =
     (let hasExplicitIndices = list_ex (\<lambda>q. argIndices q \<noteq> None) qs;
          j = joinLoop hasExplicitIndices qs
                \<lparr>join_f = [], join_a = [], join_argIndices = None, join_offset = 0\<rparr>
      in \<lparr>fmt = stringsJoin (join_f j) ('' '' @ sep @ '' ''),
          args = join_a j,
          argIndices = (if hasExplicitIndices then join_argIndices j else None)\<rparr>)"

text \<open>
  \<^verbatim>\<open>Join\<close> takes pointers. Both of its loops dereference every element they reach, and
  the second one reaches them all, so a nil pointer among them panics.
\<close>

fun derefAll :: "'v heap \<Rightarrow> addr list \<Rightarrow> 'v Query list option" where
  "derefAll heap [] = Some []"
| "derefAll heap (p # ps) =
     (case heap p of
        None \<Rightarrow> None
      | Some q \<Rightarrow> (case derefAll heap ps of None \<Rightarrow> None | Some qs \<Rightarrow> Some (q # qs)))"

definition Join :: "'v heap \<Rightarrow> addr list \<Rightarrow> string \<Rightarrow> failure + 'v Query" where
  "Join heap queries sep =
     (case derefAll heap queries of
        None \<Rightarrow> Inl NilPointerDereference
      | Some qs \<Rightarrow> Inr (joinQueries qs sep))"

section \<open>Go's \<^verbatim>\<open>fmt.Sprintf\<close> on arguments of type \<^verbatim>\<open>ignoreFormat\<close>\<close>

text \<open>
  Both \<^verbatim>\<open>Sprintf\<close> (on its legacy path) and \<^verbatim>\<open>Query.Query\<close> hand the template to
  \<^verbatim>\<open>fmt.Sprintf\<close> of Go's standard library, with arguments that are all of type
  \<^verbatim>\<open>ignoreFormat\<close>. Its method \<^verbatim>\<open>Format\<close> writes the string it holds, whatever the verb,
  flags, width and precision are, so an argument is modelled by that string. What follows
  is \<^verbatim>\<open>doPrintf\<close> of \<^verbatim>\<open>fmt/print.go\<close> on such arguments, working on the rest of the
  format, \<^verbatim>\<open>format[i:]\<close>. The flags, the width and the precision have no effect on what
  is written and are only skipped. The fast path of \<^verbatim>\<open>doPrintf\<close> for a lower-case verb
  does what the general path does and is not modelled apart.

  Two cases are left out, and the model's result is \<open>None\<close> there: a verb byte from
  \<^verbatim>\<open>0x80\<close> on, which Go decodes as UTF-8, and the verbs \<^verbatim>\<open>T\<close>, \<^verbatim>\<open>p\<close> and \<^verbatim>\<open>w\<close> on an
  argument, for which \<^verbatim>\<open>fmt\<close> does not call \<^verbatim>\<open>Format\<close> but prints by reflection.
\<close>

record pp =
  argNum :: nat
  reordered :: bool
  goodArgNum :: bool

definition tooLarge :: "nat \<Rightarrow> bool" where
  "tooLarge x = (x > 1000000)"

text \<open>
  \<^verbatim>\<open>parsenum(s, start, end)\<close> on \<^verbatim>\<open>s[start:end]\<close>: the number, whether there is one, and
  the rest. A number that grows too large gives up and skips to \<^verbatim>\<open>end\<close>.
\<close>

fun parsenumLoop :: "nat \<Rightarrow> bool \<Rightarrow> string \<Rightarrow> nat \<times> bool \<times> string" where
  "parsenumLoop num isnum [] = (num, isnum, [])"
| "parsenumLoop num isnum (c # cs) =
     (if isDigit c then
        (if tooLarge num then (0, False, [])
         else parsenumLoop (num * 10 + digitVal c) True cs)
      else (num, isnum, c # cs))"

definition parsenum :: "string \<Rightarrow> nat \<times> bool \<times> string" where
  "parsenum s = parsenumLoop 0 False s"

text \<open>\<^verbatim>\<open>parseArgNumber\<close>, on a string that starts with \<^verbatim>\<open>[\<close>: index, width of the bracket, ok.\<close>

definition parseArgNumber :: "string \<Rightarrow> int \<times> nat \<times> bool" where
  "parseArgNumber format =
     (if length format < 3 then (0, 1, False)
      else if CHR '']'' \<in> set (tl format) then
        (let i = 1 + length (takeWhile (\<lambda>c. c \<noteq> CHR '']'') (tl format));
             (width, ok, rest) = parsenum (slice format 1 i)
         in if \<not> ok \<or> rest \<noteq> [] then (0, i + 1, False) else (int width - 1, i + 1, True))
      else (0, 1, False))"

text \<open>\<^verbatim>\<open>argNumber\<close>: the printer's state, the rest of the format and \<^verbatim>\<open>found\<close>.\<close>

definition argNumber :: "pp \<Rightarrow> string \<Rightarrow> nat \<Rightarrow> pp \<times> string \<times> bool" where
  "argNumber p s numArgs =
     (case s of
        [] \<Rightarrow> (p, s, False)
      | c # _ \<Rightarrow>
          if c \<noteq> CHR ''['' then (p, s, False)
          else
            (let (index, wid, ok) = parseArgNumber s;
                 p1 = p\<lparr>reordered := True\<rparr>
             in if ok \<and> 0 \<le> index \<and> index < int numArgs
                then (p1\<lparr>argNum := nat index\<rparr>, drop wid s, True)
                else (p1\<lparr>goodArgNum := False\<rparr>, drop wid s, ok)))"

text \<open>\<^verbatim>\<open>intFromArg\<close>: no argument here is an integer; one is used up if there is one left.\<close>

definition intFromArg :: "string list \<Rightarrow> pp \<Rightarrow> pp" where
  "intFromArg a p = (if argNum p < length a then p\<lparr>argNum := argNum p + 1\<rparr> else p)"

definition fmtFlag :: "char \<Rightarrow> bool" where
  "fmtFlag c = (c \<in> set ''#0+- '')"

text \<open>The width: what is written, the state, the rest, and \<^verbatim>\<open>afterIndex\<close>.\<close>

definition fmtWidth :: "string list \<Rightarrow> pp \<Rightarrow> string \<Rightarrow> bool \<Rightarrow> string \<times> pp \<times> string \<times> bool" where
  "fmtWidth a p s afterIndex =
     (if s \<noteq> [] \<and> hd s = CHR ''*'' then (''%!(BADWIDTH)'', intFromArg a p, tl s, False)
      else
        (let (num, widPresent, rest) = parsenum s
         in ([], if afterIndex \<and> widPresent then p\<lparr>goodArgNum := False\<rparr> else p, rest, afterIndex)))"

definition fmtPrecision :: "string list \<Rightarrow> pp \<Rightarrow> string \<Rightarrow> bool \<Rightarrow> string \<times> pp \<times> string \<times> bool" where
  "fmtPrecision a p s afterIndex =
     (if s \<noteq> [] \<and> hd s = CHR ''.'' then
        (let p1 = (if afterIndex then p\<lparr>goodArgNum := False\<rparr> else p);
             (p2, s2, afterIndex2) = argNumber p1 (tl s) (length a)
         in if s2 \<noteq> [] \<and> hd s2 = CHR ''*'' then (''%!(BADPREC)'', intFromArg a p2, tl s2, False)
            else (let (num, precPresent, rest) = parsenum s2 in ([], p2, rest, afterIndex2)))
      else ([], p, s, afterIndex))"

text \<open>The verb, and what is written for it.\<close>

definition fmtVerb :: "string list \<Rightarrow> pp \<Rightarrow> string \<Rightarrow> (string \<times> pp \<times> string) option" where
  "fmtVerb a p s =
     (case s of
        [] \<Rightarrow> Some (''%!(NOVERB)'', p, [])
      | verb # rest \<Rightarrow>
          if (of_char verb :: nat) \<ge> 128 then None
          else if verb = CHR ''%'' then Some (''%'', p, rest)
          else if \<not> goodArgNum p then Some (''%!'' @ [verb] @ ''(BADINDEX)'', p, rest)
          else if argNum p \<ge> length a then Some (''%!'' @ [verb] @ ''(MISSING)'', p, rest)
          else if verb \<in> set ''Tpw'' then None
          else Some (a ! argNum p, p\<lparr>argNum := argNum p + 1\<rparr>, rest))"

text \<open>One verb: the part of the loop body of \<^verbatim>\<open>doPrintf\<close> after the marker \<^verbatim>\<open>%\<close>.\<close>

definition fmtDirective :: "string list \<Rightarrow> pp \<Rightarrow> string \<Rightarrow> (string \<times> pp \<times> string) option" where
  "fmtDirective a p0 s0 =
     (let s1 = dropWhile fmtFlag s0;
          (p1, s2, afterIndex1) = argNumber (p0\<lparr>goodArgNum := True\<rparr>) s1 (length a);
          (out1, p2, s3, afterIndex2) = fmtWidth a p1 s2 afterIndex1;
          (out2, p3, s4, afterIndex3) = fmtPrecision a p2 s3 afterIndex2;
          (p4, s5, afterIndex4) = (if \<not> afterIndex3 then argNumber p3 s4 (length a) else (p3, s4, afterIndex3))
      in case fmtVerb a p4 s5 of
           None \<Rightarrow> None
         | Some (out3, p5, s6) \<Rightarrow> Some (out1 @ out2 @ out3, p5, s6))"

text \<open>The arguments left over, written unless an explicit index was seen.\<close>

definition extraArgs :: "string list \<Rightarrow> pp \<Rightarrow> string" where
  "extraArgs a p =
     (if \<not> reordered p \<and> argNum p < length a
      then ''%!(EXTRA '' @ stringsJoin (map (\<lambda>s. ''sqlf.ignoreFormat='' @ s) (drop (argNum p) a)) '', '' @ '')''
      else [])"

lemma parsenumLoop_length: "parsenumLoop num isnum s = (n, b, r) \<Longrightarrow> length r \<le> length s"
proof (induction s arbitrary: num isnum)
  case Nil
  then show ?case by simp
next
  case (Cons c cs)
  show ?case
  proof (cases "isDigit c \<and> \<not> tooLarge num")
    case True
    with Cons.prems have "parsenumLoop (num * 10 + digitVal c) True cs = (n, b, r)" by simp
    from Cons.IH [OF this] show ?thesis by simp
  next
    case False
    with Cons.prems show ?thesis by (auto split: if_splits)
  qed
qed

lemma parsenum_length: "parsenum s = (n, b, r) \<Longrightarrow> length r \<le> length s"
  unfolding parsenum_def by (rule parsenumLoop_length)

lemma argNumber_length: "argNumber p s k = (p', r, b) \<Longrightarrow> length r \<le> length s"
  by (auto simp add: argNumber_def Let_def split: list.splits if_splits prod.splits)

lemma fmtWidth_length: "fmtWidth a p s ai = (out, p', r, b) \<Longrightarrow> length r \<le> length s"
  by (auto simp add: fmtWidth_def Let_def split: if_splits prod.splits dest: parsenum_length)

lemma fmtPrecision_length: "fmtPrecision a p s ai = (out, p', r, b) \<Longrightarrow> length r \<le> length s"
proof (cases "s \<noteq> [] \<and> hd s = CHR ''.''")
  case False
  assume "fmtPrecision a p s ai = (out, p', r, b)"
  with False show ?thesis by (auto simp add: fmtPrecision_def)
next
  case True
  assume h: "fmtPrecision a p s ai = (out, p', r, b)"
  obtain p2 s2 ai2 where an: "argNumber (if ai then p\<lparr>goodArgNum := False\<rparr> else p) (tl s) (length a) = (p2, s2, ai2)"
    by (metis prod_cases3)
  from argNumber_length [OF an] have l2: "length s2 \<le> length (tl s)" .
  obtain num pr rest where pn: "parsenum s2 = (num, pr, rest)" by (metis prod_cases3)
  from parsenum_length [OF pn] have "length rest \<le> length s2" .
  with h True an pn l2 show ?thesis
    by (auto simp add: fmtPrecision_def Let_def split: if_splits)
qed

lemma fmtVerb_length: "fmtVerb a p s = Some (out, p', r) \<Longrightarrow> length r \<le> length s"
  by (auto simp add: fmtVerb_def split: list.splits if_splits)

lemma fmtDirective_length:
  assumes "fmtDirective a p s = Some (out, p', r)"
  shows "length r \<le> length s"
proof -
  obtain p1 s2 ai1 where a1: "argNumber (p\<lparr>goodArgNum := True\<rparr>) (dropWhile fmtFlag s) (length a) = (p1, s2, ai1)"
    by (metis prod_cases3)
  obtain out1 p2 s3 ai2 where a2: "fmtWidth a p1 s2 ai1 = (out1, p2, s3, ai2)"
    by (metis prod_cases4)
  obtain out2 p3 s4 ai3 where a3: "fmtPrecision a p2 s3 ai2 = (out2, p3, s4, ai3)"
    by (metis prod_cases4)
  obtain p4 s5 ai4 where a4: "(if \<not> ai3 then argNumber p3 s4 (length a) else (p3, s4, ai3)) = (p4, s5, ai4)"
    by (metis prod_cases3)
  have "length (dropWhile fmtFlag s) \<le> length s" by (rule length_dropWhile_le)
  moreover have "length s2 \<le> length (dropWhile fmtFlag s)" using argNumber_length [OF a1] .
  moreover have "length s3 \<le> length s2" using fmtWidth_length [OF a2] .
  moreover have "length s4 \<le> length s3" using fmtPrecision_length [OF a3] .
  moreover have "length s5 \<le> length s4"
    using a4 argNumber_length [of p3 s4 "length a" p4 s5 ai4] by (auto split: if_splits)
  moreover have "length r \<le> length s5"
    using assms a1 a2 a3 a4 fmtVerb_length [of a p4 s5 _ p' r]
    by (auto simp add: fmtDirective_def Let_def split: option.splits)
  ultimately show ?thesis by linarith
qed

function doPrintf :: "string list \<Rightarrow> pp \<Rightarrow> string \<Rightarrow> string option" where
  "doPrintf a p [] = Some (extraArgs a p)"
| "doPrintf a p (c # s) =
     (if c \<noteq> CHR ''%'' then map_option ((#) c) (doPrintf a p s)
      else (case fmtDirective a p s of
              None \<Rightarrow> None
            | Some (out, p', rest) \<Rightarrow> map_option ((@) out) (doPrintf a p' rest)))"
  by pat_completeness auto
termination
proof (relation "measure (\<lambda>(a, p, s). length s)")
  show "wf (measure (\<lambda>(a, p, s). length s))" by simp
next
  fix a :: "string list" and p :: pp and c :: char and s :: string
  show "((a, p, s), (a, p, c # s)) \<in> measure (\<lambda>(a, p, s). length s)" by simp
next
  fix a :: "string list" and p :: pp and c :: char and s :: string
    and x2 :: "string \<times> pp \<times> string" and out :: string and y :: "pp \<times> string"
    and p' :: pp and rest :: string
  assume "fmtDirective a p s = Some x2" "(out, y) = x2" "(p', rest) = y"
  then have "fmtDirective a p s = Some (out, p', rest)" by simp
  from fmtDirective_length [OF this]
  show "((a, p', rest), (a, p, c # s)) \<in> measure (\<lambda>(a, p, s). length s)" by simp
qed

definition fmtSprintf :: "string \<Rightarrow> string list \<Rightarrow> string option" where
  "fmtSprintf format a = doPrintf a \<lparr>argNum = 0, reordered = False, goodArgNum = True\<rparr> format"

section \<open>Sprintf, Query and Args\<close>

text \<open>\<^verbatim>\<open>strings.ReplaceAll(format, "%%", "%%%%")\<close>.\<close>

fun escapePercents :: "string \<Rightarrow> string" where
  "escapePercents (a # b # s) =
     (if a = CHR ''%'' \<and> b = CHR ''%'' then ''%%%%'' @ escapePercents s
      else a # escapePercents (b # s))"
| "escapePercents s = s"

text \<open>
  The loop of the legacy path of \<^verbatim>\<open>Sprintf\<close>: the strings handed to \<^verbatim>\<open>fmt.Sprintf\<close> and
  the flattened arguments.
\<close>

fun flattenArgs :: "'v heap \<Rightarrow> 'v arg list \<Rightarrow> failure + (string list \<times> 'v list)" where
  "flattenArgs heap [] = Inr ([], [])"
| "flattenArgs heap (Leaf v # as) =
     (case flattenArgs heap as of
        Inl e \<Rightarrow> Inl e
      | Inr (f, a) \<Rightarrow> Inr (''%s'' # f, v # a))"
| "flattenArgs heap (QueryPtr p # as) =
     (case heap p of
        None \<Rightarrow> Inl NilPointerDereference
      | Some q \<Rightarrow>
          (case flattenArgs heap as of
             Inl e \<Rightarrow> Inl e
           | Inr (f, a) \<Rightarrow> Inr (fmt q # f, args q @ a)))"

definition Sprintf :: "'v heap \<Rightarrow> string \<Rightarrow> 'v arg list \<Rightarrow> failure + 'v Query" where
  "Sprintf heap format as =
     (case needsExplicitPath heap format as of
        Inl e \<Rightarrow> Inl e
      | Inr True \<Rightarrow> sprintfExplicit heap format as
      | Inr False \<Rightarrow>
          (case flattenArgs heap as of
             Inl e \<Rightarrow> Inl e
           | Inr (f, a) \<Rightarrow>
               (case fmtSprintf (escapePercents format) f of
                  None \<Rightarrow> Inl FmtBeyondModel
                | Some s \<Rightarrow> Inr \<lparr>fmt = s, args = a, argIndices = None\<rparr>)))"

text \<open>The method \<^verbatim>\<open>Query\<close> of \<^verbatim>\<open>*Query\<close>; the binder is the method \<^verbatim>\<open>BindVar\<close> it is given.\<close>

definition Query_Query :: "'v Query \<Rightarrow> (int \<Rightarrow> string) \<Rightarrow> string option" where
  "Query_Query q binder =
     (case argIndices q of
        Some is \<Rightarrow> fmtSprintf (fmt q) (map binder is)
      | None \<Rightarrow> fmtSprintf (fmt q) (map (\<lambda>i. binder (int i)) [0..<length (args q)]))"

definition Query_Args :: "'v Query \<Rightarrow> 'v list" where
  "Query_Args q = args q"

text \<open>
  Modelled from the spec: the binder \<^verbatim>\<open>PostgresBindVar\<close> is declared in a file of the
  package that is not among the sources; the spec gives it as the numbered dialect that
  names slot \<open>i\<close> by \<^verbatim>\<open>"$"\<close> followed by \<open>i + 1\<close>.
\<close>

definition PostgresBindVar :: "int \<Rightarrow> string" where
  "PostgresBindVar i = CHR ''$'' # itoa (i + 1)"

section \<open>Values for the examples\<close>

text \<open>Leaf arguments of the examples: Go strings and Go ints.\<close>

datatype goValue = GoString string | GoInt int

definition emptyHeap :: "goValue heap" where
  "emptyHeap = (\<lambda>_. None)"

section \<open>Index resolution\<close>

text \<open>
  The index that each verb of a directive list resolves to, and the value of
  \<^verbatim>\<open>currentImplicitArg\<close> after the list, by the same \<open>resolveIndex\<close> that the loop body
  \<open>composeStep\<close> applies; a literal \<^verbatim>\<open>%%\<close> is skipped by the loop before it resolves
  anything.
\<close>

fun resolveAll :: "directive list \<Rightarrow> int \<Rightarrow> int list" where
  "resolveAll [] cur = []"
| "resolveAll (d # ds) cur =
     (if isLiteral d then resolveAll ds cur
      else (case resolveIndex d cur of (argIdx, next) \<Rightarrow> argIdx # resolveAll ds next))"

fun counterAfter :: "directive list \<Rightarrow> int \<Rightarrow> int" where
  "counterAfter [] cur = cur"
| "counterAfter (d # ds) cur =
     (if isLiteral d then counterAfter ds cur else counterAfter ds (snd (resolveIndex d cur)))"

definition verbs :: "directive list \<Rightarrow> directive list" where
  "verbs ds = filter (\<lambda>d. \<not> isLiteral d) ds"

lemma resolveAll_append:
  "resolveAll (xs @ ys) cur = resolveAll xs cur @ resolveAll ys (counterAfter xs cur)"
  by (induction xs arbitrary: cur) (auto simp add: resolveIndex_def split: prod.splits)

lemma counterAfter_append:
  "counterAfter (xs @ ys) cur = counterAfter ys (counterAfter xs cur)"
  by (induction xs arbitrary: cur) auto

lemma resolveAll_implicit:
  "\<forall>e \<in> set ds. \<not> hasIndex e \<Longrightarrow>
   resolveAll ds cur = map (\<lambda>k. cur + int k) [0..<length (verbs ds)]
   \<and> counterAfter ds cur = cur + int (length (verbs ds))"
proof (induction ds arbitrary: cur)
  case Nil
  then show ?case by (simp add: verbs_def)
next
  case (Cons d ds)
  then have ih: "\<And>c. resolveAll ds c = map (\<lambda>k. c + int k) [0..<length (verbs ds)]
     \<and> counterAfter ds c = c + int (length (verbs ds))" by simp
  show ?case
  proof (cases "isLiteral d")
    case True
    then show ?thesis using ih by (simp add: verbs_def)
  next
    case False
    have nh: "\<not> hasIndex d" using Cons.prems by simp
    have "map (\<lambda>k. cur + int k) [0..<Suc (length (verbs ds))]
        = cur # map (\<lambda>k. cur + 1 + int k) [0..<length (verbs ds)]"
      by (simp add: upt_conv_Cons map_Suc_upt [symmetric] del: upt_Suc)
    then show ?thesis using False nh ih by (simp add: verbs_def resolveIndex_def)
  qed
qed

lemma composeStep_counter:
  "composeStep heap format as d c = Inr c' \<Longrightarrow>
   currentImplicitArg c' = counterAfter [d] (currentImplicitArg c)"
  by (auto simp add: composeStep_def composeNested_def composeLeaf_def Let_def
      split: if_splits prod.splits arg.splits option.splits)

lemma composeLoop_counter:
  "composeLoop heap format as ds c = Inr c' \<Longrightarrow>
   currentImplicitArg c' = counterAfter ds (currentImplicitArg c)"
proof (induction ds arbitrary: c)
  case Nil
  then show ?case by simp
next
  case (Cons d ds)
  then obtain c1 where s: "composeStep heap format as d c = Inr c1"
    and l: "composeLoop heap format as ds c1 = Inr c'"
    by (auto split: sum.splits)
  from composeStep_counter [OF s] Cons.IH [OF l] show ?case by simp
qed

text \<open>
  C4. Index resolution. The verbs of a directive list with no explicit index resolve to
  \<open>0, 1, 2, ...\<close>, the count of the verbs resolved before (literals do not count). A verb
  with the explicit index \<open>n = index d\<close> resolves to \<open>n - 1\<close> and resets the counter to
  \<open>n\<close>: the verbs without an index that follow it resolve to \<open>n, n + 1, ...\<close>, and the
  loop of \<^verbatim>\<open>sprintfExplicit\<close> leaves them with \<^verbatim>\<open>currentImplicitArg\<close> equal to \<open>n\<close> plus
  their number.
\<close>

theorem index_resolution:
  assumes "\<forall>e \<in> set imps. \<not> hasIndex e" and "hasIndex d" and "\<not> isLiteral d"
  shows "resolveAll (imps @ rest) 0
           = map int [0..<length (verbs imps)] @ resolveAll rest (int (length (verbs imps)))
       \<and> resolveAll (pre @ d # imps @ rest) cur
           = resolveAll pre cur @ (index d - 1)
               # map (\<lambda>k. index d + int k) [0..<length (verbs imps)]
               @ resolveAll rest (index d + int (length (verbs imps)))
       \<and> (composeLoop heap format as (pre @ d # imps) c = Inr c' \<longrightarrow>
            currentImplicitArg c' = index d + int (length (verbs imps)))"
proof -
  note imp = resolveAll_implicit [OF assms(1)]
  have 1: "resolveAll (imps @ rest) 0
           = map int [0..<length (verbs imps)] @ resolveAll rest (int (length (verbs imps)))"
    using imp [of 0] by (simp add: resolveAll_append)
  have 2: "resolveAll (pre @ d # imps @ rest) cur
           = resolveAll pre cur @ (index d - 1)
               # map (\<lambda>k. index d + int k) [0..<length (verbs imps)]
               @ resolveAll rest (index d + int (length (verbs imps)))"
    using assms(2,3) imp [of "index d"]
    by (simp add: resolveAll_append resolveIndex_def)
  have 3: "currentImplicitArg c' = index d + int (length (verbs imps))"
    if "composeLoop heap format as (pre @ d # imps) c = Inr c'"
    using composeLoop_counter [OF that] assms(2,3) imp [of "index d"]
    by (simp add: counterAfter_append resolveIndex_def)
  from 1 2 3 show ?thesis by blast
qed

text \<open>
  The directives of \<^verbatim>\<open>"%s %% %s %[5]d %s %s"\<close>: two verbs and a literal without an index
  resolve to \<open>0, 1\<close>; the verb with the index 5 resolves to \<open>4\<close> and the two after it to
  \<open>5, 6\<close>.
\<close>

theorem index_resolution_witness:
  "parseDirectives ''%s %% %s %[5]d %s %s''
     = take 3 (parseDirectives ''%s %% %s %[5]d %s %s'')
       @ parseDirectives ''%s %% %s %[5]d %s %s'' ! 3
       # drop 4 (parseDirectives ''%s %% %s %[5]d %s %s'') @ []
   \<and> resolveAll (parseDirectives ''%s %% %s %[5]d %s %s'') 0 = [0, 1, 4, 5, 6]"
proof -
  let ?ds = "parseDirectives ''%s %% %s %[5]d %s %s''"
  have ds: "?ds =
    [\<lparr>start = 0, endpos = 2, hasIndex = False, index = 0, isLiteral = False\<rparr>,
     \<lparr>start = 3, endpos = 5, hasIndex = False, index = 0, isLiteral = True\<rparr>,
     \<lparr>start = 6, endpos = 8, hasIndex = False, index = 0, isLiteral = False\<rparr>,
     \<lparr>start = 9, endpos = 14, hasIndex = True, index = 5, isLiteral = False\<rparr>,
     \<lparr>start = 15, endpos = 17, hasIndex = False, index = 0, isLiteral = False\<rparr>,
     \<lparr>start = 18, endpos = 20, hasIndex = False, index = 0, isLiteral = False\<rparr>]"
    by code_simp
  have a: "\<forall>e \<in> set (drop 4 ?ds). \<not> hasIndex e" by (simp add: ds)
  have b: "hasIndex (?ds ! 3)" by (simp add: ds)
  have c: "\<not> isLiteral (?ds ! 3)" by (simp add: ds)
  have split: "?ds = take 3 ?ds @ ?ds ! 3 # drop 4 ?ds @ []" by (simp add: ds)
  have pre: "resolveAll (take 3 ?ds) 0 = [0, 1]"
    by (simp add: ds resolveIndex_def)
  from index_resolution [OF a b c, of "[]" "take 3 ?ds" 0]
  have "resolveAll (take 3 ?ds @ ?ds ! 3 # drop 4 ?ds @ []) 0
          = resolveAll (take 3 ?ds) 0 @ (index (?ds ! 3) - 1)
              # map (\<lambda>k. index (?ds ! 3) + int k) [0..<length (verbs (drop 4 ?ds))]
              @ resolveAll [] (index (?ds ! 3) + int (length (verbs (drop 4 ?ds))))"
    by blast
  then have "resolveAll ?ds 0
          = resolveAll (take 3 ?ds) 0 @ (index (?ds ! 3) - 1)
              # map (\<lambda>k. index (?ds ! 3) + int k) [0..<length (verbs (drop 4 ?ds))]
              @ resolveAll [] (index (?ds ! 3) + int (length (verbs (drop 4 ?ds))))"
    using split by simp
  also have "\<dots> = [0, 1, 4, 5, 6]"
    unfolding pre by (simp add: ds verbs_def upt_conv_Cons)
  finally show ?thesis using split by blast
qed

section \<open>Join\<close>

lemma appendInts_eq: "appendInts s xs = (if xs = [] then s else Some (elems s @ xs))"
  by (induction xs arbitrary: s) auto

lemma appendInts_append: "appendInts (appendInts s xs) ys = appendInts s (xs @ ys)"
  by (simp add: appendInts_eq)

text \<open>The running offset written as a recursion, and the merged index list in closed form.\<close>

fun shiftedFrom :: "int \<Rightarrow> 'v Query list \<Rightarrow> int list" where
  "shiftedFrom off [] = []"
| "shiftedFrom off (q # qs) =
     map (\<lambda>idx. off + idx) (normIndices q) @ shiftedFrom (off + int (length (args q))) qs"

text \<open>
  What the spec asks of the merged list: the normalised index list of each input, in order,
  every entry shifted by the number of arguments of the inputs before it.
\<close>

definition mergedIndices :: "'v Query list \<Rightarrow> int list" where
  "mergedIndices qs =
     concat (map (\<lambda>k. map (\<lambda>idx. int (length (concat (map args (take k qs)))) + idx)
                          (normIndices (qs ! k)))
                 [0..<length qs])"

lemma shiftedFrom_closed:
  "shiftedFrom off qs =
     concat (map (\<lambda>k. map (\<lambda>idx. off + int (length (concat (map args (take k qs)))) + idx)
                          (normIndices (qs ! k)))
                 [0..<length qs])"
proof (induction qs arbitrary: off)
  case Nil
  then show ?case by simp
next
  case (Cons q qs)
  have "[0..<length (q # qs)] = 0 # map Suc [0..<length qs]"
    by (simp add: upt_conv_Cons map_Suc_upt del: upt_Suc)
  then show ?case
    by (simp add: Cons.IH comp_def add.assoc del: upt_Suc)
qed

lemma joinLoop_closed:
  "joinLoop h qs j =
     \<lparr>join_f = join_f j @ map fmt qs,
      join_a = join_a j @ concat (map args qs),
      join_argIndices =
        (if h then appendInts (join_argIndices j) (shiftedFrom (join_offset j) qs)
         else join_argIndices j),
      join_offset = join_offset j + int (length (concat (map args qs)))\<rparr>"
proof (induction qs arbitrary: j)
  case Nil
  then show ?case by simp
next
  case (Cons q qs)
  show ?case
    by (simp add: Cons.IH joinStep_def appendInts_append add.assoc)
qed

lemma joinQueries_closed:
  "joinQueries qs sep =
     \<lparr>fmt = stringsJoin (map fmt qs) ('' '' @ sep @ '' ''),
      args = concat (map args qs),
      argIndices =
        (if list_ex (\<lambda>q. argIndices q \<noteq> None) qs \<and> mergedIndices qs \<noteq> []
         then Some (mergedIndices qs) else None)\<rparr>"
  using shiftedFrom_closed [of 0 qs]
  by (simp add: joinQueries_def Let_def joinLoop_closed appendInts_eq mergedIndices_def)

text \<open>
  C6. For pointers to live queries \<open>qs\<close> and a separator, \<^verbatim>\<open>Join\<close> returns the templates
  joined with \<^verbatim>\<open>" " + sep + " "\<close> between consecutive ones and the arguments concatenated
  in order. If some input has an index list, the result's index list is the inputs'
  normalised lists in order, each shifted by the number of arguments before its input
  (the list stays nil when there is nothing to append); if none has, the result has none.
\<close>

theorem Join_concatenates:
  assumes "derefAll heap ps = Some qs"
  shows "\<exists>r. Join heap ps sep = Inr r
     \<and> fmt r = stringsJoin (map fmt qs) ('' '' @ sep @ '' '')
     \<and> Query_Args r = concat (map args qs)
     \<and> argIndices r =
         (if list_ex (\<lambda>q. argIndices q \<noteq> None) qs \<and> mergedIndices qs \<noteq> []
          then Some (mergedIndices qs) else None)"
  using assms by (simp add: Join_def joinQueries_closed Query_Args_def)

text \<open>
  The second case of \<^verbatim>\<open>TestJoinWithExplicitIndices\<close>, with a third, legacy, query added:
  \<^verbatim>\<open>Sprintf("a = %[1]s OR a = %[1]s", "x")\<close>, \<^verbatim>\<open>Sprintf("b = %s AND c = %s", "y", "z")\<close>
  and \<^verbatim>\<open>Sprintf("d = %s", "w")\<close>.
\<close>

definition joinHeap :: "goValue heap" where
  "joinHeap = emptyHeap
     (1 \<mapsto> \<lparr>fmt = ''a = %s OR a = %s'', args = [GoString ''x''], argIndices = Some [0, 0]\<rparr>,
      2 \<mapsto> \<lparr>fmt = ''b = %s AND c = %s'', args = [GoString ''y'', GoString ''z''], argIndices = None\<rparr>,
      3 \<mapsto> \<lparr>fmt = ''d = %s'', args = [GoString ''w''], argIndices = None\<rparr>)"

theorem Join_concatenates_witness:
  "\<exists>r. Join joinHeap [1, 2, 3] ''AND'' = Inr r
     \<and> fmt r = ''a = %s OR a = %s AND b = %s AND c = %s AND d = %s''
     \<and> Query_Args r = [GoString ''x'', GoString ''y'', GoString ''z'', GoString ''w'']
     \<and> argIndices r = Some [0, 0, 1, 2, 3]"
proof -
  let ?qs = "[\<lparr>fmt = ''a = %s OR a = %s'', args = [GoString ''x''], argIndices = Some [0, 0]\<rparr>,
      \<lparr>fmt = ''b = %s AND c = %s'', args = [GoString ''y'', GoString ''z''], argIndices = None\<rparr>,
      \<lparr>fmt = ''d = %s'', args = [GoString ''w''], argIndices = None\<rparr>]"
  have d: "derefAll joinHeap [1, 2, 3] = Some ?qs"
    by (simp add: joinHeap_def emptyHeap_def)
  have m: "mergedIndices ?qs = [0, 0, 1, 2, 3]"
    by (simp add: mergedIndices_def normIndices_def upt_conv_Cons)
  from Join_concatenates [OF d, of "''AND''"] show ?thesis
    unfolding m by simp
qed

section \<open>The composition loop in closed form\<close>

text \<open>
  What a resolved index refers to: the leaf argument at a source position, or the
  \<^verbatim>\<open>Query\<close> object at an address. These are the keys of the two maps of
  \<^verbatim>\<open>sprintfExplicit\<close>, \<^verbatim>\<open>argToResultPos\<close> and \<^verbatim>\<open>nestedQueries\<close>.
\<close>

datatype ref = LeafRef int | QueryRef addr

definition refOf :: "'v arg list \<Rightarrow> int \<Rightarrow> ref" where
  "refOf as r = (case as ! nat r of Leaf v \<Rightarrow> LeafRef r | QueryPtr p \<Rightarrow> QueryRef p)"

text \<open>
  The arguments, the index list and the template text that a reference contributes when
  it is met for the first time.
\<close>

fun refArgs :: "'v heap \<Rightarrow> 'v arg list \<Rightarrow> ref \<Rightarrow> 'v list" where
  "refArgs heap as (LeafRef r) = (case as ! nat r of Leaf v \<Rightarrow> [v] | QueryPtr p \<Rightarrow> [])"
| "refArgs heap as (QueryRef p) = (case heap p of Some q \<Rightarrow> args q | None \<Rightarrow> [])"

fun refIndices :: "'v heap \<Rightarrow> ref \<Rightarrow> int list" where
  "refIndices heap (LeafRef r) = [0]"
| "refIndices heap (QueryRef p) = (case heap p of Some q \<Rightarrow> normIndices q | None \<Rightarrow> [])"

fun refFmt :: "'v heap \<Rightarrow> ref \<Rightarrow> string" where
  "refFmt heap (LeafRef r) = ''%s''"
| "refFmt heap (QueryRef p) = (case heap p of Some q \<Rightarrow> fmt q | None \<Rightarrow> [])"

text \<open>The distinct references in the order in which they are first met.\<close>

definition firstRefs :: "'a list \<Rightarrow> 'a list" where
  "firstRefs ks = rev (remdups (rev ks))"

text \<open>
  Where the block of a reference starts in the argument list: after the blocks of the
  references first met before it.
\<close>

definition blockOffset :: "'v heap \<Rightarrow> 'v arg list \<Rightarrow> ref list \<Rightarrow> ref \<Rightarrow> int" where
  "blockOffset heap as ks k =
     int (length (concat (map (refArgs heap as) (takeWhile (\<lambda>k'. k' \<noteq> k) (firstRefs ks)))))"

definition slotIndices :: "'v heap \<Rightarrow> 'v arg list \<Rightarrow> ref list \<Rightarrow> int list" where
  "slotIndices heap as ks =
     concat (map (\<lambda>k. map (\<lambda>i. blockOffset heap as ks k + i) (refIndices heap k)) ks)"

text \<open>The state of the loop after the references \<open>ks\<close>.\<close>

definition composerInv :: "'v heap \<Rightarrow> 'v arg list \<Rightarrow> ref list \<Rightarrow> 'v composer \<Rightarrow> bool" where
  "composerInv heap as ks c =
     (resultArgs c = concat (map (refArgs heap as) (firstRefs ks))
      \<and> argIndicesAcc c = (if slotIndices heap as ks = [] then None else Some (slotIndices heap as ks))
      \<and> argToResultPos c =
          (\<lambda>r. if LeafRef r \<in> set ks then Some (blockOffset heap as ks (LeafRef r)) else None)
      \<and> nestedQueries c =
          (\<lambda>p. if QueryRef p \<in> set ks
               then Some \<lparr>info_offset = blockOffset heap as ks (QueryRef p),
                          info_fmt = refFmt heap (QueryRef p),
                          info_argIndices = refIndices heap (QueryRef p)\<rparr>
               else None)
      \<and> (\<forall>p. QueryRef p \<in> set ks \<longrightarrow> heap p \<noteq> None))"

lemma firstRefs_snoc:
  "firstRefs (ks @ [k]) = (if k \<in> set ks then firstRefs ks else firstRefs ks @ [k])"
  by (simp add: firstRefs_def)

lemma set_firstRefs [simp]: "set (firstRefs ks) = set ks"
  by (simp add: firstRefs_def)

lemma firstRefs_Nil [simp]: "firstRefs [] = []"
  by (simp add: firstRefs_def)

lemma distinct_firstRefs [simp]: "distinct (firstRefs ks)"
  by (simp add: firstRefs_def)

lemma blockOffset_old:
  "k \<in> set ks \<Longrightarrow> blockOffset heap as (ks @ [k']) k = blockOffset heap as ks k"
  by (simp add: blockOffset_def firstRefs_snoc takeWhile_append1)

lemma takeWhile_all: "k \<notin> set xs \<Longrightarrow> takeWhile (\<lambda>k'. k' \<noteq> k) xs = xs"
  by (induction xs) auto

lemma blockOffset_new:
  assumes "k \<notin> set ks"
  shows "blockOffset heap as (ks @ [k]) k = int (length (concat (map (refArgs heap as) (firstRefs ks))))"
proof -
  have "takeWhile (\<lambda>k'. k' \<noteq> k) (firstRefs ks @ [k]) = firstRefs ks"
    using assms by (subst takeWhile_append2) auto
  then show ?thesis using assms by (simp add: blockOffset_def firstRefs_snoc)
qed

lemma slotIndices_snoc:
  "slotIndices heap as (ks @ [k]) =
     slotIndices heap as ks @ map (\<lambda>i. blockOffset heap as (ks @ [k]) k + i) (refIndices heap k)"
proof -
  have eq: "map (\<lambda>x. map (\<lambda>i. blockOffset heap as (ks @ [k]) x + i) (refIndices heap x)) ks
      = map (\<lambda>x. map (\<lambda>i. blockOffset heap as ks x + i) (refIndices heap x)) ks"
  proof (rule map_cong [OF refl])
    fix x assume "x \<in> set ks"
    then show "map (\<lambda>i. blockOffset heap as (ks @ [k]) x + i) (refIndices heap x)
             = map (\<lambda>i. blockOffset heap as ks x + i) (refIndices heap x)"
      by (simp only: blockOffset_old)
  qed
  show ?thesis unfolding slotIndices_def map_append concat_append eq by simp
qed

lemma composerInv_initial: "composerInv heap as [] initialComposer"
  by (simp add: composerInv_def initialComposer_def slotIndices_def)

lemma composeLeaf_inv:
  assumes inv: "composerInv heap as ks c" and leaf: "as ! nat r = Leaf v"
  shows "composerInv heap as (ks @ [refOf as r]) (composeLeaf r v (c\<lparr>currentImplicitArg := n\<rparr>))"
proof -
  have k: "refOf as r = LeafRef r" using leaf by (simp add: refOf_def)
  have ra: "refArgs heap as (LeafRef r) = [v]" using leaf by simp
  show ?thesis
  proof (cases "LeafRef r \<in> set ks")
    case True
    then have pos: "argToResultPos c r = Some (blockOffset heap as ks (LeafRef r))"
      using inv by (simp add: composerInv_def)
    have acc: "elems (argIndicesAcc c) = slotIndices heap as ks"
      using inv by (simp add: composerInv_def)
    show ?thesis
      unfolding k composerInv_def
      using True inv pos acc
      by (auto simp add: composeLeaf_def composerInv_def firstRefs_snoc slotIndices_snoc
          blockOffset_old fun_eq_iff)
  next
    case False
    then have pos: "argToResultPos c r = None"
      using inv by (simp add: composerInv_def)
    have acc: "elems (argIndicesAcc c) = slotIndices heap as ks"
      using inv by (simp add: composerInv_def)
    have res: "resultArgs c = concat (map (refArgs heap as) (firstRefs ks))"
      using inv by (simp add: composerInv_def)
    show ?thesis
      unfolding k composerInv_def
      using False inv pos acc res ra
      by (auto simp add: composeLeaf_def composerInv_def firstRefs_snoc slotIndices_snoc
          blockOffset_old blockOffset_new fun_eq_iff Let_def)
  qed
qed

lemma composeNested_inv:
  assumes inv: "composerInv heap as ks c" and ptr: "as ! nat r = QueryPtr p"
    and step: "composeNested heap p (c\<lparr>currentImplicitArg := n\<rparr>) = Inr c'"
  shows "composerInv heap as (ks @ [refOf as r]) c' \<and> heap p \<noteq> None"
proof -
  have k: "refOf as r = QueryRef p" using ptr by (simp add: refOf_def)
  have acc: "elems (argIndicesAcc c) = slotIndices heap as ks"
    using inv by (simp add: composerInv_def)
  have acc2: "argIndicesAcc c = (if slotIndices heap as ks = [] then None else Some (slotIndices heap as ks))"
    using inv by (simp add: composerInv_def)
  show ?thesis
  proof (cases "QueryRef p \<in> set ks")
    case True
    then have nq: "nestedQueries c p = Some \<lparr>info_offset = blockOffset heap as ks (QueryRef p),
                          info_fmt = refFmt heap (QueryRef p),
                          info_argIndices = refIndices heap (QueryRef p)\<rparr>"
      using inv by (simp add: composerInv_def)
    from step nq have c': "c' = c\<lparr>currentImplicitArg := n,
         resultFmt := resultFmt c @ refFmt heap (QueryRef p),
         argIndicesAcc := appendInts (argIndicesAcc c)
            (map (\<lambda>i. blockOffset heap as ks (QueryRef p) + i) (refIndices heap (QueryRef p)))\<rparr>"
      by (auto simp add: composeNested_def)
    have hp: "heap p \<noteq> None" using True inv by (simp add: composerInv_def)
    show ?thesis
      unfolding k composerInv_def c'
      using True inv acc acc2 hp
      by (auto simp add: composerInv_def firstRefs_snoc slotIndices_snoc appendInts_eq
          blockOffset_old fun_eq_iff)
  next
    case False
    then have nq: "nestedQueries c p = None"
      using inv by (simp add: composerInv_def)
    from step nq obtain q where hq: "heap p = Some q"
      by (auto simp add: composeNested_def split: option.splits)
    from step nq hq have c': "c' = c\<lparr>currentImplicitArg := n,
         resultFmt := resultFmt c @ fmt q,
         argIndicesAcc := appendInts (argIndicesAcc c)
            (map (\<lambda>i. int (length (resultArgs c)) + i) (normIndices q)),
         resultArgs := resultArgs c @ args q,
         nestedQueries := (nestedQueries c)
                            (p \<mapsto> \<lparr>info_offset = int (length (resultArgs c)), info_fmt = fmt q,
                                   info_argIndices = normIndices q\<rparr>)\<rparr>"
      by (auto simp add: composeNested_def Let_def)
    have res: "resultArgs c = concat (map (refArgs heap as) (firstRefs ks))"
      using inv by (simp add: composerInv_def)
    show ?thesis
      unfolding k composerInv_def c'
      using False inv acc acc2 hq res
      by (auto simp add: composerInv_def firstRefs_snoc slotIndices_snoc appendInts_eq
          blockOffset_old blockOffset_new fun_eq_iff)
  qed
qed


text \<open>The text the loop writes for a list of directives, from the position \<open>e\<close> on.\<close>

fun composedFmt :: "'v heap \<Rightarrow> 'v arg list \<Rightarrow> string \<Rightarrow> nat \<Rightarrow> directive list \<Rightarrow> int \<Rightarrow> string" where
  "composedFmt heap as format e [] cur = []"
| "composedFmt heap as format e (d # ds) cur =
     slice format e (start d) @
     (if isLiteral d then ''%%'' @ composedFmt heap as format (endpos d) ds cur
      else (case resolveIndex d cur of
              (r, next) \<Rightarrow> refFmt heap (refOf as r) @ composedFmt heap as format (endpos d) ds next))"

definition finalEnd :: "nat \<Rightarrow> directive list \<Rightarrow> nat" where
  "finalEnd e ds = (if ds = [] then e else endpos (last ds))"

text \<open>The directives lie in the format in order: no slice of the loop is out of bounds.\<close>

fun inBounds :: "string \<Rightarrow> nat \<Rightarrow> directive list \<Rightarrow> bool" where
  "inBounds format e [] = (e \<le> length format)"
| "inBounds format e (d # ds) = (e \<le> start d \<and> start d \<le> length format \<and> inBounds format (endpos d) ds)"

lemma parseLoop_inBounds:
  "e \<le> i \<Longrightarrow> i \<le> length format \<Longrightarrow> inBounds format e (parseLoop format i)"
proof (induction format i arbitrary: e rule: parseLoop.induct)
  case (1 format i)
  note prems = "1.prems"
  show ?case
  proof (cases "i < length format")
    case False
    then have "parseLoop format i = []" by (subst parseLoop.simps) simp
    with prems show ?thesis by simp
  next
    case lt: True
    show ?thesis
    proof (cases "format ! i = CHR ''%''")
      case False
      with lt have eq: "parseLoop format i = parseLoop format (i + 1)"
        by (subst parseLoop.simps) simp
      have "inBounds format e (parseLoop format (i + 1))"
        using "1.IH"(1) [of e] lt False prems by simp
      with eq show ?thesis by simp
    next
      case pc: True
      show ?thesis
      proof (cases "directiveAt format i")
        case None
        with lt pc have "parseLoop format i = []" by (subst parseLoop.simps) simp
        with prems show ?thesis by simp
      next
        case (Some x)
        then obtain d i' where s: "directiveAt format i = Some (d, i')" by (cases x) simp
        from directiveAt_bounds [OF s]
        have b: "i + 2 \<le> i'" "i' \<le> length format" "start d = i" "endpos d = i'" by auto
        have eq: "parseLoop format i = d # parseLoop format i'"
          using lt pc s by (subst parseLoop.simps) simp
        have "inBounds format i' (parseLoop format i')"
          by (rule "1.IH"(2) [OF _ _ s refl]) (use lt pc b in simp_all)
        with eq b prems show ?thesis by simp
      qed
    qed
  qed
qed

lemma parseDirectives_inBounds: "inBounds format 0 (parseDirectives format)"
  unfolding parseDirectives_def by (rule parseLoop_inBounds) simp_all

lemma composeStep_literal:
  "isLiteral d \<Longrightarrow> composeStep heap format as d c =
     (if start d < lastEnd c \<or> length format < start d then Inl SliceBoundsOutOfRange
      else Inr (c\<lparr>resultFmt := resultFmt c @ slice format (lastEnd c) (start d) @ ''%%'',
                 lastEnd := endpos d\<rparr>))"
  by (simp add: composeStep_def Let_def)

lemma composeStep_verb:
  assumes "\<not> isLiteral d" and "resolveIndex d (currentImplicitArg c) = (r, n)"
  shows "composeStep heap format as d c =
     (if start d < lastEnd c \<or> length format < start d then Inl SliceBoundsOutOfRange
      else if r < 0 \<or> int (length as) \<le> r then Inl (IndexOutOfRange (r + 1) (length as))
      else (case as ! nat r of
              QueryPtr p \<Rightarrow>
                composeNested heap p
                  (c\<lparr>resultFmt := resultFmt c @ slice format (lastEnd c) (start d),
                     lastEnd := endpos d, currentImplicitArg := n\<rparr>)
            | Leaf v \<Rightarrow>
                Inr (composeLeaf r v
                  (c\<lparr>resultFmt := resultFmt c @ slice format (lastEnd c) (start d),
                     lastEnd := endpos d, currentImplicitArg := n\<rparr>))))"
  using assms by (simp add: composeStep_def Let_def)

lemma composerInv_touch:
  "composerInv heap as ks (c\<lparr>resultFmt := f, lastEnd := e\<rparr>) = composerInv heap as ks c"
  by (simp add: composerInv_def)

lemma composeLeaf_fields:
  "resultFmt (composeLeaf r v c) = resultFmt c @ ''%s''
   \<and> lastEnd (composeLeaf r v c) = lastEnd c
   \<and> currentImplicitArg (composeLeaf r v c) = currentImplicitArg c"
  by (simp add: composeLeaf_def Let_def split: option.splits)

lemma composeNested_fields:
  assumes "composerInv heap as ks c" and "composeNested heap p c = Inr c'"
  shows "resultFmt c' = resultFmt c @ refFmt heap (QueryRef p)
   \<and> lastEnd c' = lastEnd c \<and> currentImplicitArg c' = currentImplicitArg c"
proof (cases "nestedQueries c p")
  case None
  with assms(2) show ?thesis
    by (auto simp add: composeNested_def Let_def split: option.splits)
next
  case (Some info)
  with assms(1) have "info_fmt info = refFmt heap (QueryRef p)"
    by (auto simp add: composerInv_def split: if_splits)
  with Some assms(2) show ?thesis
    by (auto simp add: composeNested_def)
qed

lemma composeStep_inv:
  assumes inv: "composerInv heap as ks c"
    and step: "composeStep heap format as d c = Inr c'"
  shows "composerInv heap as (ks @ map (refOf as) (resolveAll [d] (currentImplicitArg c))) c'
       \<and> resultFmt c' = resultFmt c @ composedFmt heap as format (lastEnd c) [d] (currentImplicitArg c)
       \<and> lastEnd c' = endpos d
       \<and> currentImplicitArg c' = counterAfter [d] (currentImplicitArg c)
       \<and> (\<forall>r \<in> set (resolveAll [d] (currentImplicitArg c)). 0 \<le> r \<and> r < int (length as))"
proof (cases "isLiteral d")
  case True
  with step inv show ?thesis
    by (auto simp add: composeStep_literal composerInv_touch split: if_splits)
next
  case False
  obtain r n where rn: "resolveIndex d (currentImplicitArg c) = (r, n)"
    by (cases "resolveIndex d (currentImplicitArg c)")
  let ?c1 = "c\<lparr>resultFmt := resultFmt c @ slice format (lastEnd c) (start d), lastEnd := endpos d\<rparr>"
  have inv1: "composerInv heap as ks ?c1" using inv by (simp add: composerInv_touch)
  from step have ok: "\<not> (start d < lastEnd c \<or> length format < start d)"
    and rng: "\<not> (r < 0 \<or> int (length as) \<le> r)"
    by (auto simp add: composeStep_verb [OF False rn] split: if_splits)
  show ?thesis
  proof (cases "as ! nat r")
    case (Leaf v)
    with step ok rng have c': "c' = composeLeaf r v (?c1\<lparr>currentImplicitArg := n\<rparr>)"
      by (simp add: composeStep_verb [OF False rn])
    have "refOf as r = LeafRef r" using Leaf by (simp add: refOf_def)
    with composeLeaf_inv [OF inv1 Leaf, of n] composeLeaf_fields [of r v "?c1\<lparr>currentImplicitArg := n\<rparr>"]
      False rn rng c'
    show ?thesis by simp
  next
    case (QueryPtr p)
    with step ok rng have s: "composeNested heap p (?c1\<lparr>currentImplicitArg := n\<rparr>) = Inr c'"
      by (simp add: composeStep_verb [OF False rn])
    have k: "refOf as r = QueryRef p" using QueryPtr by (simp add: refOf_def)
    have inv2: "composerInv heap as ks (?c1\<lparr>currentImplicitArg := n\<rparr>)"
      using inv by (simp add: composerInv_def)
    from composeNested_inv [OF inv1 QueryPtr s] composeNested_fields [OF inv2 s] False rn rng k
    show ?thesis by simp
  qed
qed

lemma composedFmt_append:
  "composedFmt heap as format e (xs @ ys) cur =
     composedFmt heap as format e xs cur
     @ composedFmt heap as format (finalEnd e xs) ys (counterAfter xs cur)"
  by (induction xs arbitrary: e cur) (auto simp add: finalEnd_def split: prod.splits)

lemma composeLoop_inv:
  assumes "composerInv heap as ks c"
    and "composeLoop heap format as ds c = Inr c'"
  shows "composerInv heap as (ks @ map (refOf as) (resolveAll ds (currentImplicitArg c))) c'
       \<and> resultFmt c' = resultFmt c @ composedFmt heap as format (lastEnd c) ds (currentImplicitArg c)
       \<and> lastEnd c' = finalEnd (lastEnd c) ds
       \<and> (\<forall>r \<in> set (resolveAll ds (currentImplicitArg c)). 0 \<le> r \<and> r < int (length as))"
  using assms
proof (induction ds arbitrary: ks c)
  case Nil
  then show ?case by (simp add: finalEnd_def)
next
  case (Cons d ds)
  from Cons.prems(2) obtain c1 where s: "composeStep heap format as d c = Inr c1"
    and l: "composeLoop heap format as ds c1 = Inr c'"
    by (auto split: sum.splits)
  note st = composeStep_inv [OF Cons.prems(1) s]
  from st have inv1: "composerInv heap as (ks @ map (refOf as) (resolveAll [d] (currentImplicitArg c))) c1"
    by blast
  note ih = Cons.IH [OF inv1 l]
  have ca: "currentImplicitArg c1 = counterAfter [d] (currentImplicitArg c)" using st by blast
  have le: "lastEnd c1 = endpos d" using st by blast
  have ra: "resolveAll (d # ds) (currentImplicitArg c)
      = resolveAll [d] (currentImplicitArg c) @ resolveAll ds (currentImplicitArg c1)"
    using resolveAll_append [of "[d]" ds "currentImplicitArg c"] ca by simp
  have cf: "composedFmt heap as format (lastEnd c) (d # ds) (currentImplicitArg c)
      = composedFmt heap as format (lastEnd c) [d] (currentImplicitArg c)
        @ composedFmt heap as format (lastEnd c1) ds (currentImplicitArg c1)"
    using composedFmt_append [of heap as format "lastEnd c" "[d]" ds "currentImplicitArg c"] ca le
    by (simp add: finalEnd_def)
  have fe: "finalEnd (lastEnd c) (d # ds) = finalEnd (lastEnd c1) ds"
    using le by (simp add: finalEnd_def)
  from ih have i1: "composerInv heap as
      ((ks @ map (refOf as) (resolveAll [d] (currentImplicitArg c)))
        @ map (refOf as) (resolveAll ds (currentImplicitArg c1))) c'"
    and i2: "resultFmt c' = resultFmt c1
        @ composedFmt heap as format (lastEnd c1) ds (currentImplicitArg c1)"
    and i3: "lastEnd c' = finalEnd (lastEnd c1) ds"
    and i4: "\<forall>r \<in> set (resolveAll ds (currentImplicitArg c1)). 0 \<le> r \<and> r < int (length as)"
    by blast+
  from st have s2: "resultFmt c1 = resultFmt c
        @ composedFmt heap as format (lastEnd c) [d] (currentImplicitArg c)"
    and s4: "\<forall>r \<in> set (resolveAll [d] (currentImplicitArg c)). 0 \<le> r \<and> r < int (length as)"
    by blast+
  have g1: "composerInv heap as
      (ks @ map (refOf as) (resolveAll [d] (currentImplicitArg c)
        @ resolveAll ds (currentImplicitArg c1))) c'"
    using i1 by (simp only: map_append append_assoc)
  have g2: "resultFmt c' = resultFmt c
        @ composedFmt heap as format (lastEnd c) [d] (currentImplicitArg c)
        @ composedFmt heap as format (lastEnd c1) ds (currentImplicitArg c1)"
    using i2 s2 by (simp only: append_assoc)
  have g4: "\<forall>r \<in> set (resolveAll [d] (currentImplicitArg c)
        @ resolveAll ds (currentImplicitArg c1)). 0 \<le> r \<and> r < int (length as)"
    using i4 s4 by (simp only: set_append) blast
  show ?case
    unfolding ra cf fe using g1 g2 i3 g4 by blast
qed

section \<open>The failures of the explicit path\<close>

definition outOfRange :: "'v arg list \<Rightarrow> int \<Rightarrow> bool" where
  "outOfRange as r = (r < 0 \<or> int (length as) \<le> r)"

text \<open>No argument is a nil \<^verbatim>\<open>*Query\<close>.\<close>

definition liveArgs :: "'v heap \<Rightarrow> 'v arg list \<Rightarrow> bool" where
  "liveArgs heap as = list_all (\<lambda>a. case a of Leaf v \<Rightarrow> True | QueryPtr p \<Rightarrow> heap p \<noteq> None) as"

lemma liveArgs_nth:
  "liveArgs heap as \<Longrightarrow> i < length as \<Longrightarrow> as ! i = QueryPtr p \<Longrightarrow> heap p \<noteq> None"
  by (auto simp add: liveArgs_def list_all_length split: arg.splits)

lemma composeNested_keeps:
  "composeNested heap p c = Inr c' \<Longrightarrow>
   lastEnd c' = lastEnd c \<and> currentImplicitArg c' = currentImplicitArg c"
  by (auto simp add: composeNested_def Let_def split: option.splits)

lemma composeNested_live:
  "heap p \<noteq> None \<Longrightarrow> \<exists>c'. composeNested heap p c = Inr c'"
  by (auto simp add: composeNested_def Let_def split: option.splits)

lemma composeStep_live:
  assumes live: "liveArgs heap as"
    and ok: "lastEnd c \<le> start d" "start d \<le> length format"
  shows "(case find (outOfRange as) (resolveAll [d] (currentImplicitArg c)) of
            Some r \<Rightarrow> composeStep heap format as d c = Inl (IndexOutOfRange (r + 1) (length as))
          | None \<Rightarrow> (\<exists>c'. composeStep heap format as d c = Inr c' \<and> lastEnd c' = endpos d
                        \<and> currentImplicitArg c' = counterAfter [d] (currentImplicitArg c)))"
proof (cases "isLiteral d")
  case True
  with ok show ?thesis by (simp add: composeStep_literal)
next
  case False
  obtain r n where rn: "resolveIndex d (currentImplicitArg c) = (r, n)"
    by (cases "resolveIndex d (currentImplicitArg c)")
  show ?thesis
  proof (cases "outOfRange as r")
    case True
    with False rn ok show ?thesis
      by (simp add: composeStep_verb [OF False rn] outOfRange_def)
  next
    case inr: False
    then have r: "0 \<le> r" "nat r < length as" by (auto simp add: outOfRange_def)
    show ?thesis
    proof (cases "as ! nat r")
      case (Leaf v)
      with False rn ok inr show ?thesis
        by (simp add: composeStep_verb [OF False rn] outOfRange_def composeLeaf_fields)
    next
      case (QueryPtr p)
      from liveArgs_nth [OF live r(2) QueryPtr] have hp: "heap p \<noteq> None" .
      let ?c1 = "c\<lparr>resultFmt := resultFmt c @ slice format (lastEnd c) (start d),
                     lastEnd := endpos d, currentImplicitArg := n\<rparr>"
      from composeNested_live [of heap p ?c1] hp obtain c' where c': "composeNested heap p ?c1 = Inr c'"
        by blast
      from composeNested_keeps [OF c'] have "lastEnd c' = endpos d" "currentImplicitArg c' = n"
        by simp_all
      with QueryPtr False rn ok inr c' show ?thesis
        by (simp add: composeStep_verb [OF False rn] outOfRange_def)
    qed
  qed
qed

lemma find_append:
  "find P (xs @ ys) = (case find P xs of Some x \<Rightarrow> Some x | None \<Rightarrow> find P ys)"
  by (induction xs) auto

lemma composeLoop_live:
  assumes live: "liveArgs heap as"
    and ok: "inBounds format (lastEnd c) ds"
  shows "(case find (outOfRange as) (resolveAll ds (currentImplicitArg c)) of
            Some r \<Rightarrow> composeLoop heap format as ds c = Inl (IndexOutOfRange (r + 1) (length as))
          | None \<Rightarrow> (\<exists>c'. composeLoop heap format as ds c = Inr c' \<and> lastEnd c' \<le> length format))"
  using ok
proof (induction ds arbitrary: c)
  case Nil
  then show ?case by simp
next
  case (Cons d ds)
  from Cons.prems have b: "lastEnd c \<le> start d" "start d \<le> length format"
    and rest: "inBounds format (endpos d) ds" by simp_all
  define rs1 where "rs1 = resolveAll [d] (currentImplicitArg c)"
  define n1 where "n1 = counterAfter [d] (currentImplicitArg c)"
  have st: "(case find (outOfRange as) rs1 of
            Some r \<Rightarrow> composeStep heap format as d c = Inl (IndexOutOfRange (r + 1) (length as))
          | None \<Rightarrow> (\<exists>c'. composeStep heap format as d c = Inr c' \<and> lastEnd c' = endpos d
                        \<and> currentImplicitArg c' = n1))"
    unfolding rs1_def n1_def by (rule composeStep_live [OF live b])
  have ra: "resolveAll (d # ds) (currentImplicitArg c) = rs1 @ resolveAll ds n1"
    unfolding rs1_def n1_def
    using resolveAll_append [of "[d]" ds "currentImplicitArg c"] by simp
  show ?case
  proof (cases "find (outOfRange as) rs1")
    case (Some r)
    with st have "composeStep heap format as d c = Inl (IndexOutOfRange (r + 1) (length as))"
      by simp
    with Some show ?thesis unfolding ra find_append by simp
  next
    case None
    with st obtain c1 where c1: "composeStep heap format as d c = Inr c1"
      "lastEnd c1 = endpos d" "currentImplicitArg c1 = n1"
      by auto
    from rest c1 have "inBounds format (lastEnd c1) ds" by simp
    from Cons.IH [OF this] c1 None show ?thesis unfolding ra find_append
      by (auto split: option.splits)
  qed
qed

lemma sprintfExplicit_live:
  assumes "liveArgs heap as"
  shows "(case find (outOfRange as) (resolveAll (parseDirectives format) 0) of
            Some r \<Rightarrow> sprintfExplicit heap format as = Inl (IndexOutOfRange (r + 1) (length as))
          | None \<Rightarrow> (\<exists>q. sprintfExplicit heap format as = Inr q))"
proof -
  have ok: "inBounds format (lastEnd (initialComposer :: 'a composer)) (parseDirectives format)"
    using parseDirectives_inBounds [of format] by (simp add: initialComposer_def)
  from composeLoop_live [OF assms ok]
  show ?thesis
    by (auto simp add: sprintfExplicit_def initialComposer_def split: option.splits)
qed

lemma anyIndexedArg_live:
  "liveArgs heap as \<Longrightarrow> \<exists>b. anyIndexedArg heap as = Inr b"
  by (induction heap as rule: anyIndexedArg.induct) (auto simp add: liveArgs_def)


lemma needsExplicitPath_hasIndex:
  assumes "liveArgs heap as" and "list_ex hasIndex (parseDirectives format)"
  shows "needsExplicitPath heap format as = Inr True"
  using anyIndexedArg_live [OF assms(1)] assms(2)
  by (auto simp add: needsExplicitPath_def split: sum.splits bool.splits)

lemma find_Some_ex: "\<exists>x \<in> set xs. P x \<Longrightarrow> \<exists>x. find P xs = Some x \<and> P x \<and> x \<in> set xs"
  by (induction xs) auto

text \<open>
  C5, as amended. On the explicit path (the template has an explicit index, or an argument
  is a query with an index list), with no nil pointer among the arguments: if the index
  some verb resolves to is outside \<open>[0, length as)\<close>, \<^verbatim>\<open>Sprintf\<close> panics and returns no
  query; the panic is the index-out-of-range one, for the first such index \<open>r\<close> in source
  order, and its message prints \<open>r + 1\<close> and the number of arguments.
\<close>

theorem explicit_path_index_out_of_range:
  assumes "liveArgs heap as"
    and "needsExplicitPath heap format as = Inr True"
    and "\<exists>r \<in> set (resolveAll (parseDirectives format) 0). r < 0 \<or> int (length as) \<le> r"
  shows "\<exists>r. find (outOfRange as) (resolveAll (parseDirectives format) 0) = Some r
     \<and> Sprintf heap format as = Inl (IndexOutOfRange (r + 1) (length as))
     \<and> panicMessage (IndexOutOfRange (r + 1) (length as))
         = ''sqlf.Sprintf: argument index ['' @ itoa (r + 1) @ ''] out of range; have ''
           @ itoa (int (length as)) @ '' args''"
proof -
  from assms(3) have "\<exists>r \<in> set (resolveAll (parseDirectives format) 0). outOfRange as r"
    by (simp add: outOfRange_def)
  from find_Some_ex [OF this] obtain r
    where r: "find (outOfRange as) (resolveAll (parseDirectives format) 0) = Some r" by blast
  with sprintfExplicit_live [OF assms(1), of format]
  have "sprintfExplicit heap format as = Inl (IndexOutOfRange (r + 1) (length as))" by simp
  with assms(2) r show ?thesis by (simp add: Sprintf_def)
qed

lemma sprintfExplicit_closed:
  assumes "sprintfExplicit heap format as = Inr q"
  shows "args q = concat (map (refArgs heap as)
                    (firstRefs (map (refOf as) (resolveAll (parseDirectives format) 0))))
       \<and> argIndices q =
           (if slotIndices heap as (map (refOf as) (resolveAll (parseDirectives format) 0)) = []
            then None
            else Some (slotIndices heap as (map (refOf as) (resolveAll (parseDirectives format) 0))))
       \<and> fmt q = composedFmt heap as format 0 (parseDirectives format) 0
                 @ drop (finalEnd 0 (parseDirectives format)) format
       \<and> (\<forall>r \<in> set (resolveAll (parseDirectives format) 0). 0 \<le> r \<and> r < int (length as))
       \<and> (\<forall>p. QueryRef p \<in> set (map (refOf as) (resolveAll (parseDirectives format) 0))
              \<longrightarrow> heap p \<noteq> None)"
proof -
  from assms obtain c where
    l: "composeLoop heap format as (parseDirectives format) initialComposer = Inr c"
    and q: "q = \<lparr>fmt = resultFmt c @ drop (lastEnd c) format, args = resultArgs c,
                 argIndices = argIndicesAcc c\<rparr>"
    by (auto simp add: sprintfExplicit_def split: sum.splits if_splits)
  have i0: "composerInv heap as [] (initialComposer :: 'a composer)" by (rule composerInv_initial)
  from composeLoop_inv [OF i0 l]
  show ?thesis unfolding q
    by (simp add: composerInv_def initialComposer_def)
qed

lemma parseLoop_all:
  assumes "\<And>st d i'. directiveAt format st = Some (d, i') \<Longrightarrow> P d"
  shows "\<forall>d \<in> set (parseLoop format i). P d"
  using assms
proof (induction format i rule: parseLoop.induct)
  case (1 format i)
  show ?case
  proof (cases "i < length format")
    case False
    then have "parseLoop format i = []" by (subst parseLoop.simps) simp
    then show ?thesis by simp
  next
    case lt: True
    show ?thesis
    proof (cases "format ! i = CHR ''%''")
      case False
      with lt have eq: "parseLoop format i = parseLoop format (i + 1)"
        by (subst parseLoop.simps) simp
      have "\<forall>d \<in> set (parseLoop format (i + 1)). P d"
        by (rule "1.IH"(1)) (use lt False "1.prems" in simp_all)
      with eq show ?thesis by simp
    next
      case pc: True
      show ?thesis
      proof (cases "directiveAt format i")
        case None
        with lt pc have "parseLoop format i = []" by (subst parseLoop.simps) simp
        then show ?thesis by simp
      next
        case (Some x)
        then obtain d i' where s: "directiveAt format i = Some (d, i')" by (cases x) simp
        have eq: "parseLoop format i = d # parseLoop format i'"
          using lt pc s by (subst parseLoop.simps) simp
        have "\<forall>d \<in> set (parseLoop format i'). P d"
          by (rule "1.IH"(2) [OF _ _ s refl]) (use lt pc "1.prems" in simp_all)
        with eq "1.prems" [OF s] show ?thesis by simp
      qed
    qed
  qed
qed

lemma directiveAt_literal:
  "directiveAt format st = Some (d, i') \<Longrightarrow> isLiteral d \<Longrightarrow> \<not> hasIndex d"
  by (auto simp add: directiveAt_def Let_def split: if_splits prod.splits)

lemma parseDirectives_literal:
  "d \<in> set (parseDirectives format) \<Longrightarrow> isLiteral d \<Longrightarrow> \<not> hasIndex d"
  using parseLoop_all [of format "\<lambda>d. isLiteral d \<longrightarrow> \<not> hasIndex d" 0] directiveAt_literal
  unfolding parseDirectives_def by blast

text \<open>
  \<^verbatim>\<open>Sprintf("%[1]d %d %d", 1)\<close>: the second verb resolves to index 1, outside the one
  argument.
\<close>

theorem explicit_path_index_out_of_range_witness:
  "find (outOfRange [Leaf (GoInt 1)]) (resolveAll (parseDirectives ''%[1]d %d %d'') 0) = Some 1
   \<and> Sprintf emptyHeap ''%[1]d %d %d'' [Leaf (GoInt 1)] = Inl (IndexOutOfRange 2 1)
   \<and> panicMessage (IndexOutOfRange 2 1)
        = ''sqlf.Sprintf: argument index [2] out of range; have 1 args''"
proof -
  have live: "liveArgs emptyHeap [Leaf (GoInt 1)]" by (simp add: liveArgs_def)
  have ds: "parseDirectives ''%[1]d %d %d'' =
    [\<lparr>start = 0, endpos = 5, hasIndex = True, index = 1, isLiteral = False\<rparr>,
     \<lparr>start = 6, endpos = 8, hasIndex = False, index = 0, isLiteral = False\<rparr>,
     \<lparr>start = 9, endpos = 11, hasIndex = False, index = 0, isLiteral = False\<rparr>]"
    by code_simp
  have path: "needsExplicitPath emptyHeap ''%[1]d %d %d'' [Leaf (GoInt 1)] = Inr True"
    by (simp add: needsExplicitPath_def ds)
  have rs: "resolveAll (parseDirectives ''%[1]d %d %d'') 0 = [0, 1, 2]"
    by (simp add: ds resolveIndex_def)
  have ex: "\<exists>r \<in> set (resolveAll (parseDirectives ''%[1]d %d %d'') 0).
      r < 0 \<or> int (length [Leaf (GoInt 1)]) \<le> r"
    by (simp add: rs)
  have f: "find (outOfRange [Leaf (GoInt 1)]) (resolveAll (parseDirectives ''%[1]d %d %d'') 0) = Some 1"
    by (simp add: rs outOfRange_def)
  have m: "panicMessage (IndexOutOfRange 2 1)
        = ''sqlf.Sprintf: argument index [2] out of range; have 1 args''"
    by code_simp
  from explicit_path_index_out_of_range [OF live path ex] f m
  show ?thesis by simp
qed

text \<open>
  C5 as stated fails on the legacy path, which resolves and checks nothing:
  \<^verbatim>\<open>Sprintf("a = %s")\<close> without arguments returns a query, whose template holds the text
  \<^verbatim>\<open>fmt.Sprintf\<close> writes for a missing argument.
\<close>

theorem legacy_path_no_range_check:
  "resolveAll (parseDirectives ''a = %s'') 0 = [0]
   \<and> Sprintf emptyHeap ''a = %s'' [] = Inr \<lparr>fmt = ''a = %!s(MISSING)'', args = [], argIndices = None\<rparr>"
  by code_simp

section \<open>The explicit index zero\<close>

lemma resolveAll_split_explicit:
  assumes "hasIndex d" "\<not> isLiteral d"
  shows "resolveAll (pre @ d # post) cur
     = resolveAll pre cur @ (index d - 1) # resolveAll post (index d)"
  using assms by (simp add: resolveAll_append resolveIndex_def)

text \<open>
  C10, as amended. A template with a directive whose explicit index is \<^verbatim>\<open>[0]\<close>, composed
  with any arguments among which no pointer is nil, always panics with the
  index-out-of-range error: the directive resolves to \<open>-1\<close>. The error reports the index
  \<open>0\<close> when every verb before the first such directive resolves inside the arguments;
  otherwise an earlier verb has already panicked with its own index.
\<close>

theorem zero_index_always_fails:
  assumes "liveArgs heap as"
    and "\<exists>d \<in> set (parseDirectives format). hasIndex d \<and> index d = 0"
  shows "(\<exists>i. Sprintf heap format as = Inl (IndexOutOfRange i (length as)))
     \<and> ((\<forall>r \<in> set (resolveAll (takeWhile (\<lambda>d. \<not> (hasIndex d \<and> index d = 0))
                                   (parseDirectives format)) 0).
            0 \<le> r \<and> r < int (length as))
          \<longrightarrow> Sprintf heap format as = Inl (IndexOutOfRange 0 (length as)))"
proof -
  let ?ds = "parseDirectives format"
  let ?Z = "\<lambda>d. \<not> (hasIndex d \<and> index d = 0)"
  let ?pre = "takeWhile ?Z ?ds"
  from assms(2) have "dropWhile ?Z ?ds \<noteq> []" by (auto simp add: dropWhile_eq_Nil_conv)
  then obtain d post where dw: "dropWhile ?Z ?ds = d # post" by (cases "dropWhile ?Z ?ds") auto
  then have dz: "hasIndex d \<and> index d = 0"
    using hd_dropWhile [of ?Z ?ds] by (metis list.distinct(1) list.sel(1))
  have split: "?ds = ?pre @ d # post" using dw takeWhile_dropWhile_id [of ?Z ?ds] by simp
  then have "d \<in> set ?ds" by (metis in_set_conv_decomp)
  with dz parseDirectives_literal have nl: "\<not> isLiteral d" by blast
  have rs: "resolveAll ?ds 0 = resolveAll ?pre 0 @ (- 1) # resolveAll post 0"
    using resolveAll_split_explicit [of d ?pre post 0] dz nl split by simp
  have path: "needsExplicitPath heap format as = Inr True"
    using needsExplicitPath_hasIndex [OF assms(1), of format] \<open>d \<in> set ?ds\<close> dz
    by (auto simp add: list_ex_iff)
  have ex: "\<exists>r \<in> set (resolveAll ?ds 0). r < 0 \<or> int (length as) \<le> r"
    unfolding rs by simp
  from ex have "\<exists>r \<in> set (resolveAll ?ds 0). outOfRange as r"
    by (simp add: outOfRange_def)
  from find_Some_ex [OF this] obtain r
    where f: "find (outOfRange as) (resolveAll ?ds 0) = Some r" by blast
  with sprintfExplicit_live [OF assms(1), of format]
  have "sprintfExplicit heap format as = Inl (IndexOutOfRange (r + 1) (length as))" by simp
  with path have s: "Sprintf heap format as = Inl (IndexOutOfRange (r + 1) (length as))"
    by (simp add: Sprintf_def)
  have 1: "\<exists>i. Sprintf heap format as = Inl (IndexOutOfRange i (length as))" using s by blast
  have 2: "Sprintf heap format as = Inl (IndexOutOfRange 0 (length as))"
    if "\<forall>r \<in> set (resolveAll ?pre 0). 0 \<le> r \<and> r < int (length as)"
  proof -
    from that have "find (outOfRange as) (resolveAll ?pre 0) = None"
      by (auto simp add: find_None_iff outOfRange_def)
    then have "find (outOfRange as) (resolveAll ?ds 0) = Some (- 1)"
      unfolding rs find_append by (simp add: outOfRange_def)
    with f s show ?thesis by simp
  qed
  from 1 2 show ?thesis by blast
qed

text \<open>The scanner accepts \<^verbatim>\<open>[0]\<close>, and \<^verbatim>\<open>Sprintf("%[0]s", 1, 2)\<close> reports the index 0.\<close>

theorem zero_index_always_fails_witness:
  "parseDirectives ''%[0]s''
     = [\<lparr>start = 0, endpos = 5, hasIndex = True, index = 0, isLiteral = False\<rparr>]
   \<and> Sprintf emptyHeap ''%[0]s'' [Leaf (GoInt 1), Leaf (GoInt 2)] = Inl (IndexOutOfRange 0 2)"
proof -
  have ds: "parseDirectives ''%[0]s''
     = [\<lparr>start = 0, endpos = 5, hasIndex = True, index = 0, isLiteral = False\<rparr>]"
    by code_simp
  have live: "liveArgs emptyHeap [Leaf (GoInt 1), Leaf (GoInt 2)]" by (simp add: liveArgs_def)
  have ex: "\<exists>d \<in> set (parseDirectives ''%[0]s''). hasIndex d \<and> index d = 0"
    by (simp add: ds)
  from zero_index_always_fails [OF live ex] ds show ?thesis by simp
qed

text \<open>
  C10 as stated fails where an earlier verb is out of range:
  \<^verbatim>\<open>Sprintf("%[2]s %[0]s", 1)\<close> reports the index 2, not 0.
\<close>

theorem zero_index_other_index_reported:
  "(\<exists>d \<in> set (parseDirectives ''%[2]s %[0]s''). hasIndex d \<and> index d = 0)
   \<and> Sprintf emptyHeap ''%[2]s %[0]s'' [Leaf (GoInt 1)] = Inl (IndexOutOfRange 2 1)"
  by code_simp

section \<open>Slots and blocks of the explicit path\<close>

lemma concat_split_at:
  assumes "k \<in> set xs"
  shows "\<exists>post. xs = takeWhile (\<lambda>k'. k' \<noteq> k) xs @ k # post
     \<and> (distinct xs \<longrightarrow> k \<notin> set (takeWhile (\<lambda>k'. k' \<noteq> k) xs) \<and> k \<notin> set post)"
proof -
  let ?pre = "takeWhile (\<lambda>k'. k' \<noteq> k) xs"
  from assms have "dropWhile (\<lambda>k'. k' \<noteq> k) xs \<noteq> []" by (auto simp add: dropWhile_eq_Nil_conv)
  then obtain d post where dw: "dropWhile (\<lambda>k'. k' \<noteq> k) xs = d # post"
    by (cases "dropWhile (\<lambda>k'. k' \<noteq> k) xs") auto
  then have "d = k" using hd_dropWhile [of "\<lambda>k'. k' \<noteq> k" xs] by (metis list.distinct(1) list.sel(1))
  with dw have split: "xs = ?pre @ k # post"
    using takeWhile_dropWhile_id [of "\<lambda>k'. k' \<noteq> k" xs] by simp
  have "k \<notin> set ?pre \<and> k \<notin> set post" if "distinct xs"
  proof -
    from that split have "distinct (?pre @ k # post)" by simp
    then show ?thesis by simp
  qed
  with split show ?thesis by blast
qed

lemma takeWhile_order:
  assumes "k \<in> set xs" "k' \<in> set xs" "k \<noteq> k'"
  shows "(\<exists>m. takeWhile (\<lambda>x. x \<noteq> k') xs = takeWhile (\<lambda>x. x \<noteq> k) xs @ k # m)
       \<or> (\<exists>m. takeWhile (\<lambda>x. x \<noteq> k) xs = takeWhile (\<lambda>x. x \<noteq> k') xs @ k' # m)"
  using assms by (induction xs) auto

lemma blockOffset_distinct:
  assumes "k \<in> set ks" "k' \<in> set ks" "k \<noteq> k'"
    and "refArgs heap as k \<noteq> []" "refArgs heap as k' \<noteq> []"
  shows "blockOffset heap as ks k \<noteq> blockOffset heap as ks k'"
proof -
  from assms(1,2) have "k \<in> set (firstRefs ks)" "k' \<in> set (firstRefs ks)" by simp_all
  from takeWhile_order [OF this assms(3)] assms(4,5) show ?thesis
    by (auto simp add: blockOffset_def)
qed

lemma block_at_offset:
  assumes "k \<in> set ks"
  shows "\<exists>ks1 ks2. firstRefs ks = ks1 @ k # ks2 \<and> k \<notin> set ks1 \<and> k \<notin> set ks2
     \<and> blockOffset heap as ks k = int (length (concat (map (refArgs heap as) ks1)))"
proof -
  from assms have "k \<in> set (firstRefs ks)" by simp
  from concat_split_at [OF this] obtain post where
    s: "firstRefs ks = takeWhile (\<lambda>k'. k' \<noteq> k) (firstRefs ks) @ k # post"
    and d: "k \<notin> set (takeWhile (\<lambda>k'. k' \<noteq> k) (firstRefs ks)) \<and> k \<notin> set post"
    by auto
  show ?thesis
    by (rule exI [of _ "takeWhile (\<lambda>k'. k' \<noteq> k) (firstRefs ks)"], rule exI [of _ post])
       (use s d in \<open>simp add: blockOffset_def\<close>)
qed

lemma leafRef_is_leaf:
  "LeafRef r \<in> set (map (refOf as) rs) \<Longrightarrow> \<exists>v. as ! nat r = Leaf v"
  by (auto simp add: refOf_def split: arg.splits)

lemma Sprintf_explicit_closed:
  assumes "needsExplicitPath heap format as = Inr True" and "Sprintf heap format as = Inr q"
  shows "args q = concat (map (refArgs heap as)
                    (firstRefs (map (refOf as) (resolveAll (parseDirectives format) 0))))
       \<and> elems (argIndices q)
           = slotIndices heap as (map (refOf as) (resolveAll (parseDirectives format) 0))
       \<and> (\<forall>p. QueryRef p \<in> set (map (refOf as) (resolveAll (parseDirectives format) 0))
              \<longrightarrow> heap p \<noteq> None)"
proof -
  from assms have "sprintfExplicit heap format as = Inr q" by (simp add: Sprintf_def)
  from sprintfExplicit_closed [OF this] show ?thesis by (auto split: if_splits)
qed

text \<open>
  C2. On the explicit path, with \<open>ks\<close> the references of the verbs in source order: the
  arguments of the result are the blocks of the distinct references in the order in which
  they are first met, and every verb contributes its index list shifted by the offset of
  its reference's block. For a leaf the block is the one value and the entry is the slot:
  the slot depends on the source position alone, so the first verb that resolves to a
  position allocates it (after all slots allocated before) and every later one reuses it,
  and two different positions have different slots, whatever their values.
\<close>

theorem leaf_slots_by_first_reference:
  assumes "needsExplicitPath heap format as = Inr True" and "Sprintf heap format as = Inr q"
    and "ks = map (refOf as) (resolveAll (parseDirectives format) 0)"
  shows "Query_Args q = concat (map (refArgs heap as) (firstRefs ks))
       \<and> elems (argIndices q)
           = concat (map (\<lambda>k. map (\<lambda>i. blockOffset heap as ks k + i) (refIndices heap k)) ks)
       \<and> (\<forall>r v. LeafRef r \<in> set ks \<and> as ! nat r = Leaf v \<longrightarrow>
             refIndices heap (LeafRef r) = [0]
             \<and> 0 \<le> blockOffset heap as ks (LeafRef r)
             \<and> nat (blockOffset heap as ks (LeafRef r)) < length (Query_Args q)
             \<and> Query_Args q ! nat (blockOffset heap as ks (LeafRef r)) = v)
       \<and> (\<forall>r r'. LeafRef r \<in> set ks \<and> LeafRef r' \<in> set ks \<and> r \<noteq> r' \<longrightarrow>
             blockOffset heap as ks (LeafRef r) \<noteq> blockOffset heap as ks (LeafRef r'))"
proof -
  note cl = Sprintf_explicit_closed [OF assms(1,2), folded assms(3)]
  from cl have a: "Query_Args q = concat (map (refArgs heap as) (firstRefs ks))"
    by (simp add: Query_Args_def)
  from cl have b: "elems (argIndices q)
           = concat (map (\<lambda>k. map (\<lambda>i. blockOffset heap as ks k + i) (refIndices heap k)) ks)"
    by (simp add: slotIndices_def)
  have c: "refIndices heap (LeafRef r) = [0]
             \<and> 0 \<le> blockOffset heap as ks (LeafRef r)
             \<and> nat (blockOffset heap as ks (LeafRef r)) < length (Query_Args q)
             \<and> Query_Args q ! nat (blockOffset heap as ks (LeafRef r)) = v"
    if "LeafRef r \<in> set ks" "as ! nat r = Leaf v" for r v
  proof -
    from block_at_offset [OF that(1), of heap as] obtain ks1 ks2 where
      s: "firstRefs ks = ks1 @ LeafRef r # ks2"
      and o: "blockOffset heap as ks (LeafRef r) = int (length (concat (map (refArgs heap as) ks1)))"
      by blast
    have "Query_Args q = concat (map (refArgs heap as) ks1) @ v # concat (map (refArgs heap as) ks2)"
      unfolding a s using that(2) by simp
    then show ?thesis using o by (simp add: nth_append)
  qed
  have d: "blockOffset heap as ks (LeafRef r) \<noteq> blockOffset heap as ks (LeafRef r')"
    if "LeafRef r \<in> set ks" "LeafRef r' \<in> set ks" "r \<noteq> r'" for r r'
  proof -
    from that(1) leafRef_is_leaf [of r as] assms(3) obtain v where "as ! nat r = Leaf v" by blast
    moreover from that(2) leafRef_is_leaf [of r' as] assms(3) obtain v' where "as ! nat r' = Leaf v'"
      by blast
    ultimately show ?thesis
      using blockOffset_distinct [OF that(1,2), of heap as] that(3) by simp
  qed
  from a b c d show ?thesis by blast
qed

text \<open>
  C1, as amended. On the explicit path, a live \<^verbatim>\<open>Query\<close> object \<open>p\<close> referenced by at
  least one verb (so also by two or more) occurs once among the distinct references, its
  arguments are one contiguous block of the result's arguments, starting at its offset, and
  every verb that refers to it contributes the object's normalised index list shifted by
  that one offset.
\<close>

theorem nested_block_appears_once:
  assumes "needsExplicitPath heap format as = Inr True" and "Sprintf heap format as = Inr q"
    and "ks = map (refOf as) (resolveAll (parseDirectives format) 0)"
    and "QueryRef p \<in> set ks" and "heap p = Some nq"
  shows "\<exists>ks1 ks2. firstRefs ks = ks1 @ QueryRef p # ks2
       \<and> QueryRef p \<notin> set ks1 \<and> QueryRef p \<notin> set ks2
       \<and> Query_Args q = concat (map (refArgs heap as) ks1) @ args nq
                          @ concat (map (refArgs heap as) ks2)
       \<and> blockOffset heap as ks (QueryRef p) = int (length (concat (map (refArgs heap as) ks1)))
       \<and> elems (argIndices q)
           = concat (map (\<lambda>k. if k = QueryRef p
                               then map (\<lambda>i. blockOffset heap as ks (QueryRef p) + i) (normIndices nq)
                               else map (\<lambda>i. blockOffset heap as ks k + i) (refIndices heap k)) ks)"
proof -
  note cl = Sprintf_explicit_closed [OF assms(1,2), folded assms(3)]
  from cl have a: "Query_Args q = concat (map (refArgs heap as) (firstRefs ks))"
    by (simp add: Query_Args_def)
  from cl have b: "elems (argIndices q)
           = concat (map (\<lambda>k. map (\<lambda>i. blockOffset heap as ks k + i) (refIndices heap k)) ks)"
    by (simp add: slotIndices_def)
  from block_at_offset [OF assms(4), of heap as] obtain ks1 ks2 where
    s: "firstRefs ks = ks1 @ QueryRef p # ks2" "QueryRef p \<notin> set ks1" "QueryRef p \<notin> set ks2"
    and o: "blockOffset heap as ks (QueryRef p) = int (length (concat (map (refArgs heap as) ks1)))"
    by blast
  have a': "Query_Args q = concat (map (refArgs heap as) ks1) @ args nq
                          @ concat (map (refArgs heap as) ks2)"
    unfolding a s(1) using assms(5) by simp
  have "(\<lambda>k. map (\<lambda>i. blockOffset heap as ks k + i) (refIndices heap k))
      = (\<lambda>k. if k = QueryRef p
              then map (\<lambda>i. blockOffset heap as ks (QueryRef p) + i) (normIndices nq)
              else map (\<lambda>i. blockOffset heap as ks k + i) (refIndices heap k))"
    using assms(5) by (auto simp add: fun_eq_iff)
  with b have b': "elems (argIndices q)
           = concat (map (\<lambda>k. if k = QueryRef p
                               then map (\<lambda>i. blockOffset heap as ks (QueryRef p) + i) (normIndices nq)
                               else map (\<lambda>i. blockOffset heap as ks k + i) (refIndices heap k)) ks)"
    by simp
  from s o a' b' show ?thesis by blast
qed

text \<open>
  \<^verbatim>\<open>Sprintf("a = %[2]s AND b = %[1]s AND c = %[2]s", "first", "second")\<close>, the case
  \<^verbatim>\<open>explicit_out_of_order_with_reuse\<close> of the tests.
\<close>

theorem leaf_slots_by_first_reference_witness:
  "Sprintf emptyHeap ''a = %[2]s AND b = %[1]s AND c = %[2]s''
       [Leaf (GoString ''first''), Leaf (GoString ''second'')]
     = Inr \<lparr>fmt = ''a = %s AND b = %s AND c = %s'',
            args = [GoString ''second'', GoString ''first''],
            argIndices = Some [0, 1, 0]\<rparr>
   \<and> Query_Args \<lparr>fmt = ''a = %s AND b = %s AND c = %s'',
            args = [GoString ''second'', GoString ''first''],
            argIndices = Some [0, 1, 0]\<rparr>
       = concat (map (refArgs emptyHeap [Leaf (GoString ''first''), Leaf (GoString ''second'')])
           [LeafRef 1, LeafRef 0])
   \<and> Query_Query \<lparr>fmt = ''a = %s AND b = %s AND c = %s'',
            args = [GoString ''second'', GoString ''first''],
            argIndices = Some [0, 1, 0]\<rparr> PostgresBindVar
       = Some ''a = $1 AND b = $2 AND c = $1''"
proof -
  let ?as = "[Leaf (GoString ''first''), Leaf (GoString ''second'')]"
  let ?q = "\<lparr>fmt = ''a = %s AND b = %s AND c = %s'',
            args = [GoString ''second'', GoString ''first''],
            argIndices = Some [0, 1, 0]\<rparr>"
  have path: "needsExplicitPath emptyHeap ''a = %[2]s AND b = %[1]s AND c = %[2]s'' ?as = Inr True"
    by code_simp
  have sp: "Sprintf emptyHeap ''a = %[2]s AND b = %[1]s AND c = %[2]s'' ?as = Inr ?q"
    by code_simp
  have ks: "[LeafRef 1, LeafRef 0, LeafRef 1]
      = map (refOf ?as) (resolveAll (parseDirectives ''a = %[2]s AND b = %[1]s AND c = %[2]s'') 0)"
    by code_simp
  have fr: "firstRefs [LeafRef 1, LeafRef 0, LeafRef 1] = [LeafRef 1, LeafRef 0]"
    by (simp add: firstRefs_def)
  have r: "Query_Query ?q PostgresBindVar = Some ''a = $1 AND b = $2 AND c = $1''"
    by code_simp
  from leaf_slots_by_first_reference [OF path sp ks]
  have "Query_Args ?q = concat (map (refArgs emptyHeap ?as) (firstRefs [LeafRef 1, LeafRef 0, LeafRef 1]))"
    by blast
  with sp r show ?thesis unfolding fr by blast
qed

text \<open>Example 4 of the spec, and two equal values at two positions.\<close>

lemma out_of_order_example:
  "Sprintf emptyHeap ''a = %[2]s AND b = %[1]s'' [Leaf (GoString ''first''), Leaf (GoString ''second'')]
     = Inr \<lparr>fmt = ''a = %s AND b = %s'', args = [GoString ''second'', GoString ''first''],
            argIndices = Some [0, 1]\<rparr>
   \<and> Query_Query \<lparr>fmt = ''a = %s AND b = %s'', args = [GoString ''second'', GoString ''first''],
            argIndices = Some [0, 1]\<rparr> PostgresBindVar = Some ''a = $1 AND b = $2''"
  by code_simp

lemma equal_values_distinct_slots:
  "Sprintf emptyHeap ''a = %[1]s AND b = %[2]s'' [Leaf (GoString ''x''), Leaf (GoString ''x'')]
     = Inr \<lparr>fmt = ''a = %s AND b = %s'', args = [GoString ''x'', GoString ''x''],
            argIndices = Some [0, 1]\<rparr>"
  by code_simp

text \<open>The legacy query \<^verbatim>\<open>Sprintf("(%s OR %s)", "x", "y")\<close> at the address 1.\<close>

definition nestedHeap :: "goValue heap" where
  "nestedHeap = emptyHeap
     (1 \<mapsto> \<lparr>fmt = ''(%s OR %s)'', args = [GoString ''x'', GoString ''y''], argIndices = None\<rparr>)"

theorem nested_block_appears_once_witness:
  "Sprintf nestedHeap ''a = %[2]s AND b = %[1]s AND c = %[1]s'' [QueryPtr 1, Leaf (GoString ''z'')]
     = Inr \<lparr>fmt = ''a = %s AND b = (%s OR %s) AND c = (%s OR %s)'',
            args = [GoString ''z'', GoString ''x'', GoString ''y''],
            argIndices = Some [0, 1, 2, 1, 2]\<rparr>
   \<and> (\<exists>ks1 ks2. [LeafRef 1, QueryRef 1] = ks1 @ QueryRef 1 # ks2
        \<and> [GoString ''z'', GoString ''x'', GoString ''y'']
            = concat (map (refArgs nestedHeap [QueryPtr 1, Leaf (GoString ''z'')]) ks1)
              @ [GoString ''x'', GoString ''y'']
              @ concat (map (refArgs nestedHeap [QueryPtr 1, Leaf (GoString ''z'')]) ks2))
   \<and> Query_Query \<lparr>fmt = ''a = %s AND b = (%s OR %s) AND c = (%s OR %s)'',
            args = [GoString ''z'', GoString ''x'', GoString ''y''],
            argIndices = Some [0, 1, 2, 1, 2]\<rparr> PostgresBindVar
       = Some ''a = $1 AND b = ($2 OR $3) AND c = ($2 OR $3)''"
proof -
  let ?as = "[QueryPtr 1, Leaf (GoString ''z'')]"
  let ?q = "\<lparr>fmt = ''a = %s AND b = (%s OR %s) AND c = (%s OR %s)'',
            args = [GoString ''z'', GoString ''x'', GoString ''y''],
            argIndices = Some [0, 1, 2, 1, 2]\<rparr>"
  let ?nq = "\<lparr>fmt = ''(%s OR %s)'', args = [GoString ''x'', GoString ''y''], argIndices = None\<rparr>"
  have path: "needsExplicitPath nestedHeap ''a = %[2]s AND b = %[1]s AND c = %[1]s'' ?as = Inr True"
    by code_simp
  have sp: "Sprintf nestedHeap ''a = %[2]s AND b = %[1]s AND c = %[1]s'' ?as = Inr ?q"
    by code_simp
  have ks: "[LeafRef 1, QueryRef 1, QueryRef 1]
      = map (refOf ?as) (resolveAll (parseDirectives ''a = %[2]s AND b = %[1]s AND c = %[1]s'') 0)"
    by code_simp
  have fr: "firstRefs [LeafRef 1, QueryRef 1, QueryRef 1] = [LeafRef 1, QueryRef 1]"
    by (simp add: firstRefs_def)
  have mem: "QueryRef 1 \<in> set [LeafRef 1, QueryRef 1, QueryRef 1]" by simp
  have hp: "nestedHeap 1 = Some ?nq" by (simp add: nestedHeap_def)
  have r: "Query_Query ?q PostgresBindVar = Some ''a = $1 AND b = ($2 OR $3) AND c = ($2 OR $3)''"
    by code_simp
  from nested_block_appears_once [OF path sp ks mem hp]
  obtain ks1 ks2 where "firstRefs [LeafRef 1, QueryRef 1, QueryRef 1] = ks1 @ QueryRef 1 # ks2"
    and "Query_Args ?q = concat (map (refArgs nestedHeap ?as) ks1) @ args ?nq
                          @ concat (map (refArgs nestedHeap ?as) ks2)"
    by blast
  then have "\<exists>ks1 ks2. [LeafRef 1, QueryRef 1] = ks1 @ QueryRef 1 # ks2
        \<and> [GoString ''z'', GoString ''x'', GoString ''y'']
            = concat (map (refArgs nestedHeap ?as) ks1) @ [GoString ''x'', GoString ''y'']
              @ concat (map (refArgs nestedHeap ?as) ks2)"
    unfolding fr by (auto simp add: Query_Args_def)
  with sp r show ?thesis by blast
qed

text \<open>
  C1 as stated fails on the legacy path: the same legacy query passed for two verbs of a
  template without explicit indices has its arguments appended twice.
\<close>

theorem legacy_path_duplicates_nested_block:
  "Sprintf nestedHeap ''a = %s AND b = %s'' [QueryPtr 1, QueryPtr 1]
     = Inr \<lparr>fmt = ''a = (%s OR %s) AND b = (%s OR %s)'',
            args = [GoString ''x'', GoString ''y'', GoString ''x'', GoString ''y''],
            argIndices = None\<rparr>"
  by code_simp

section \<open>Normalised templates and their rendering\<close>

text \<open>
  A normalised template is made of text without the marker, the literal \<^verbatim>\<open>%%\<close> and the
  placeholder \<^verbatim>\<open>%s\<close>: this is what composition writes from well-formed input.
  \<open>cleanHoles\<close> is the number of its placeholders, or \<open>None\<close> when the string is not of
  that form.
\<close>

fun cleanHoles :: "string \<Rightarrow> nat option" where
  "cleanHoles [] = Some 0"
| "cleanHoles [c] = (if c = CHR ''%'' then None else Some 0)"
| "cleanHoles (c # d # s) =
     (if c \<noteq> CHR ''%'' then cleanHoles (d # s)
      else if d = CHR ''%'' then cleanHoles s
      else if d = CHR ''s'' then map_option Suc (cleanHoles s)
      else None)"

text \<open>
  The renderer of the spec on a normalised template: every placeholder, in source order,
  is replaced by the next token, and a literal \<^verbatim>\<open>%%\<close> by one marker character.
\<close>

fun fill :: "string \<Rightarrow> string list \<Rightarrow> string" where
  "fill (c # d # s) toks =
     (if c \<noteq> CHR ''%'' then c # fill (d # s) toks
      else if d = CHR ''%'' then CHR ''%'' # fill s toks
      else (case toks of [] \<Rightarrow> [] | b # bs \<Rightarrow> b @ fill s bs))"
| "fill s toks = s"

lemma cleanHoles_text: "CHR ''%'' \<notin> set t \<Longrightarrow> cleanHoles (t @ s) = cleanHoles s"
proof (induction t)
  case Nil
  then show ?case by simp
next
  case (Cons c t)
  then show ?case by (cases "t @ s") auto
qed

lemma cleanHoles_Cons: "c \<noteq> CHR ''%'' \<Longrightarrow> cleanHoles (c # s) = cleanHoles s"
  by (cases s) auto

lemma cleanHoles_append:
  "cleanHoles t1 = Some n1 \<Longrightarrow> cleanHoles (t1 @ t2) = map_option ((+) n1) (cleanHoles t2)"
proof (induction t1 arbitrary: n1 rule: cleanHoles.induct)
  case 1
  then show ?case by (simp add: option.map_ident)
next
  case (2 c)
  then show ?case by (auto simp add: cleanHoles_Cons option.map_ident split: if_splits)
next
  case (3 c d s)
  show ?case
  proof (cases "c \<noteq> CHR ''%''")
    case True
    with 3 show ?thesis by (simp add: cleanHoles_Cons)
  next
    case pc: False
    show ?thesis
    proof (cases "d = CHR ''%''")
      case True
      with pc 3 show ?thesis by simp
    next
      case False
      with pc "3.prems" obtain m where ds: "d = CHR ''s''" and m: "cleanHoles s = Some m" "n1 = Suc m"
        by (auto split: if_splits)
      from "3.IH"(3) [OF _ _ ds m(1)] pc False
      have "cleanHoles (s @ t2) = map_option ((+) m) (cleanHoles t2)" by simp
      with pc ds m show ?thesis by (simp add: option.map_comp comp_def)
    qed
  qed
qed

lemma fill_Cons: "c \<noteq> CHR ''%'' \<Longrightarrow> fill (c # s) toks = c # fill s toks"
  by (cases s) auto

lemma fill_text: "CHR ''%'' \<notin> set t \<Longrightarrow> fill (t @ s) toks = t @ fill s toks"
  by (induction t) (auto simp add: fill_Cons)

lemma fill_append:
  "cleanHoles t1 = Some n1 \<Longrightarrow> length toks1 = n1 \<Longrightarrow>
   fill (t1 @ t2) (toks1 @ toks2) = fill t1 toks1 @ fill t2 toks2"
proof (induction t1 arbitrary: n1 toks1 rule: cleanHoles.induct)
  case 1
  then show ?case by simp
next
  case (2 c)
  then show ?case by (auto simp add: fill_Cons split: if_splits)
next
  case (3 c d s)
  show ?case
  proof (cases "c \<noteq> CHR ''%''")
    case True
    with 3 show ?thesis by (simp add: fill_Cons)
  next
    case pc: False
    show ?thesis
    proof (cases "d = CHR ''%''")
      case True
      with pc 3 show ?thesis by simp
    next
      case False
      with pc "3.prems"(1) obtain m where ds: "d = CHR ''s''" and m: "cleanHoles s = Some m" "n1 = Suc m"
        by (auto split: if_splits)
      from m "3.prems"(2) obtain b bs where t: "toks1 = b # bs" "length bs = m"
        by (cases toks1) auto
      from "3.IH"(3) [OF _ _ ds m(1) t(2)] pc False
      have "fill (s @ t2) (bs @ toks2) = fill s bs @ fill t2 toks2" by simp
      with pc ds t show ?thesis by simp
    qed
  qed
qed

lemma doPrintf_cong:
  "argNum p = argNum p' \<Longrightarrow> reordered p = reordered p' \<Longrightarrow> doPrintf a p s = doPrintf a p' s"
proof (induction s arbitrary: p p')
  case Nil
  then show ?case by (simp add: extraArgs_def)
next
  case (Cons c s)
  from Cons.prems have "p\<lparr>goodArgNum := True\<rparr> = p'\<lparr>goodArgNum := True\<rparr>"
    by (simp add: pp.equality)
  then have fd: "fmtDirective a p s = fmtDirective a p' s"
    by (simp add: fmtDirective_def)
  show ?case
  proof (cases "c = CHR ''%''")
    case True
    then show ?thesis by (simp add: fd)
  next
    case False
    have "doPrintf a p s = doPrintf a p' s" using Cons.prems by (rule Cons.IH)
    with False show ?thesis by simp
  qed
qed

lemma fmtDirective_s:
  "argNum p < length a \<Longrightarrow>
   fmtDirective a p (CHR ''s'' # rest)
     = Some (a ! argNum p, p\<lparr>goodArgNum := True, argNum := argNum p + 1\<rparr>, rest)"
  by (simp add: fmtDirective_def fmtFlag_def argNumber_def fmtWidth_def fmtPrecision_def
      parsenum_def isDigit_def fmtVerb_def Let_def)

lemma fmtDirective_percent:
  "fmtDirective a p (CHR ''%'' # rest) = Some (''%'', p\<lparr>goodArgNum := True\<rparr>, rest)"
  by (simp add: fmtDirective_def fmtFlag_def argNumber_def fmtWidth_def fmtPrecision_def
      parsenum_def isDigit_def fmtVerb_def Let_def)

lemma doPrintf_text:
  "CHR ''%'' \<notin> set t \<Longrightarrow> doPrintf a p (t @ rest) = map_option (\<lambda>r. t @ r) (doPrintf a p rest)"
proof (induction t)
  case Nil
  then show ?case by (cases "doPrintf a p rest") auto
next
  case (Cons c t)
  then show ?case by (cases "doPrintf a p rest") auto
qed

lemma doPrintf_clean:
  "cleanHoles t = Some n \<Longrightarrow> argNum p + n \<le> length a \<Longrightarrow>
   doPrintf a p (t @ rest)
     = map_option (\<lambda>r. fill t (take n (drop (argNum p) a)) @ r)
         (doPrintf a (p\<lparr>argNum := argNum p + n\<rparr>) rest)"
proof (induction t arbitrary: n p rule: cleanHoles.induct)
  case 1
  then show ?case by (cases "doPrintf a p rest") auto
next
  case (2 c)
  then show ?case by (cases "doPrintf a p rest") (auto split: if_splits)
next
  case (3 c d s)
  show ?case
  proof (cases "c \<noteq> CHR ''%''")
    case True
    with "3.prems" have ch: "cleanHoles (d # s) = Some n" by simp
    from "3.IH"(1) [OF True ch "3.prems"(2)] True show ?thesis
      by (cases "doPrintf a (p\<lparr>argNum := argNum p + n\<rparr>) rest") (auto simp add: fill_Cons)
  next
    case pc: False
    show ?thesis
    proof (cases "d = CHR ''%''")
      case True
      with pc "3.prems" have ch: "cleanHoles s = Some n" by simp
      have cg: "doPrintf a (p\<lparr>goodArgNum := True, argNum := argNum p + n\<rparr>) rest
          = doPrintf a (p\<lparr>argNum := argNum p + n\<rparr>) rest"
        by (rule doPrintf_cong) simp_all
      from "3.IH"(2) [OF pc True ch, of "p\<lparr>goodArgNum := True\<rparr>"] "3.prems"(2) pc True cg
      show ?thesis
        by (cases "doPrintf a (p\<lparr>argNum := argNum p + n\<rparr>) rest")
           (auto simp add: fmtDirective_percent)
    next
      case False
      with pc "3.prems" obtain m where ds: "d = CHR ''s''" and m: "cleanHoles s = Some m" "n = Suc m"
        by (auto split: if_splits)
      from m "3.prems"(2) have lt: "argNum p < length a" by simp
      have tk: "take (Suc m) (drop (argNum p) a) = a ! argNum p # take m (drop (Suc (argNum p)) a)"
        using lt by (simp add: Cons_nth_drop_Suc [symmetric])
      have cg: "doPrintf a (p\<lparr>goodArgNum := True, argNum := argNum p + 1, argNum := Suc (argNum p + m)\<rparr>) rest
          = doPrintf a (p\<lparr>argNum := argNum p + n\<rparr>) rest"
        by (rule doPrintf_cong) (simp_all add: m)
      from "3.IH"(3) [OF pc False ds m(1), of "p\<lparr>goodArgNum := True, argNum := argNum p + 1\<rparr>"]
        "3.prems"(2) m
      have "doPrintf a (p\<lparr>goodArgNum := True, argNum := argNum p + 1\<rparr>) (s @ rest)
        = map_option (\<lambda>r. fill s (take m (drop (Suc (argNum p)) a)) @ r)
            (doPrintf a (p\<lparr>argNum := argNum p + n\<rparr>) rest)"
        using cg by simp
      with pc ds m lt tk show ?thesis
        by (cases "doPrintf a (p\<lparr>argNum := argNum p + n\<rparr>) rest")
           (auto simp add: fmtDirective_s)
    qed
  qed
qed

lemma fmtSprintf_clean:
  assumes "cleanHoles t = Some (length a)"
  shows "fmtSprintf t a = Some (fill t a)"
  using doPrintf_clean [OF assms, of "\<lparr>argNum = 0, reordered = False, goodArgNum = True\<rparr>" a "[]"]
  by (simp add: fmtSprintf_def extraArgs_def)

section \<open>The scanner on a suffix of the template\<close>

text \<open>The scan from a position on depends only on the rest of the string.\<close>

definition shiftD :: "nat \<Rightarrow> directive \<Rightarrow> directive" where
  "shiftD n d = d\<lparr>start := n + start d, endpos := n + endpos d\<rparr>"

lemma nth_shift: "k = length pre + i \<Longrightarrow> (pre @ s) ! k = s ! i"
  by simp

lemma drop_shift: "k = length pre + i \<Longrightarrow> drop k (pre @ s) = drop i s"
  by simp

lemma skipDigits_shift:
  "k = length pre + j \<Longrightarrow> skipDigits (pre @ s) k = length pre + skipDigits s j"
  by (simp add: skipDigits_def)

lemma skipFlags_shift:
  "k = length pre + j \<Longrightarrow> skipFlags (pre @ s) k = length pre + skipFlags s j"
  by (simp add: skipFlags_def)

lemma skipOptionalIndex_shift:
  assumes "k = length pre + i"
  shows "skipOptionalIndex (pre @ s) k = length pre + skipOptionalIndex s i"
proof -
  have sd: "skipDigits (pre @ s) (k + 1) = length pre + skipDigits s (i + 1)"
    by (rule skipDigits_shift) (use assms in simp)
  have nth: "\<And>j. (pre @ s) ! (length pre + j) = s ! j" by simp
  show ?thesis
    unfolding skipOptionalIndex_def sd Let_def
    using assms by (simp add: nth)
qed

lemma parseIndex_shift:
  assumes "k = length pre + i"
  shows "parseIndex (pre @ s) k
     = (case parseIndex s i of (h, n, j) \<Rightarrow> (h, n, length pre + j))"
proof -
  have sd: "skipDigits (pre @ s) (k + 1) = length pre + skipDigits s (i + 1)"
    by (rule skipDigits_shift) (use assms in simp)
  have nth: "\<And>j. (pre @ s) ! (length pre + j) = s ! j" by simp
  have sl: "\<And>j. slice (pre @ s) (Suc (length pre + i)) (length pre + j) = slice s (Suc i) j"
    by (simp add: slice_def)
  show ?thesis
    unfolding parseIndex_def sd Let_def
    using assms by (simp add: nth sl)
qed

lemma skipWidth_shift:
  assumes "k = length pre + i"
  shows "skipWidth (pre @ s) k = length pre + skipWidth s i"
proof -
  have so: "skipOptionalIndex (pre @ s) (k + 1) = length pre + skipOptionalIndex s (i + 1)"
    by (rule skipOptionalIndex_shift) (use assms in simp)
  have sd: "skipDigits (pre @ s) k = length pre + skipDigits s i"
    by (rule skipDigits_shift) (rule assms)
  show ?thesis
    unfolding skipWidth_def so sd using assms by simp
qed

lemma skipPrecision_shift:
  assumes "k = length pre + i"
  shows "skipPrecision (pre @ s) k = length pre + skipPrecision s i"
proof -
  have so: "skipOptionalIndex (pre @ s) (k + 2) = length pre + skipOptionalIndex s (i + 2)"
    by (rule skipOptionalIndex_shift) (use assms in simp)
  have sd: "skipDigits (pre @ s) (k + 1) = length pre + skipDigits s (i + 1)"
    by (rule skipDigits_shift) (use assms in simp)
  have nth: "\<And>j. (pre @ s) ! (length pre + j) = s ! j" by simp
  have n1: "(pre @ s) ! (k + 1) = s ! (i + 1)" using assms nth [of "i + 1"] by (simp add: add.assoc)
  show ?thesis
    unfolding skipPrecision_def so sd n1 using assms by (simp add: nth)
qed

lemma directiveAt_shift:
  assumes "k = length pre + st"
  shows "directiveAt (pre @ s) k
     = map_option (\<lambda>(d, i'). (shiftD (length pre) d, length pre + i')) (directiveAt s st)"
proof -
  have nth: "\<And>j. (pre @ s) ! (length pre + j) = s ! j" by simp
  have n1: "(pre @ s) ! (k + 1) = s ! (st + 1)" using assms nth [of "st + 1"] by (simp add: add.assoc)
  have pi: "parseIndex (pre @ s) (k + 1)
     = (case parseIndex s (st + 1) of (h, n, j) \<Rightarrow> (h, n, length pre + j))"
    by (rule parseIndex_shift) (use assms in simp)
  obtain h n j where p: "parseIndex s (st + 1) = (h, n, j)" by (cases "parseIndex s (st + 1)")
  have f: "skipFlags (pre @ s) (length pre + j) = length pre + skipFlags s j"
    by (rule skipFlags_shift) simp
  have w: "skipWidth (pre @ s) (length pre + skipFlags s j) = length pre + skipWidth s (skipFlags s j)"
    by (rule skipWidth_shift) simp
  have pr: "skipPrecision (pre @ s) (length pre + skipWidth s (skipFlags s j))
      = length pre + skipPrecision s (skipWidth s (skipFlags s j))"
    by (rule skipPrecision_shift) simp
  show ?thesis
    unfolding directiveAt_def Let_def n1 pi p
    using assms by (simp add: f w pr shiftD_def)
qed

lemma parseLoop_shift:
  "parseLoop (pre @ s) (length pre + i) = map (shiftD (length pre)) (parseLoop s i)"
proof (induction s i rule: parseLoop.induct)
  case (1 s i)
  show ?case
  proof (cases "i < length s")
    case False
    then have "parseLoop s i = []" by (subst parseLoop.simps) simp
    moreover from False have "parseLoop (pre @ s) (length pre + i) = []"
      by (subst parseLoop.simps) simp
    ultimately show ?thesis by simp
  next
    case lt: True
    show ?thesis
    proof (cases "s ! i = CHR ''%''")
      case False
      with lt have eq: "parseLoop s i = parseLoop s (i + 1)"
        by (subst parseLoop.simps) simp
      from lt False have eq': "parseLoop (pre @ s) (length pre + i) = parseLoop (pre @ s) (length pre + i + 1)"
        by (subst parseLoop.simps) simp
      have "parseLoop (pre @ s) (length pre + (i + 1)) = map (shiftD (length pre)) (parseLoop s (i + 1))"
        by (rule "1.IH"(1)) (use lt False in simp_all)
      with eq eq' show ?thesis by (simp add: add.assoc)
    next
      case pc: True
      have da: "directiveAt (pre @ s) (length pre + i)
         = map_option (\<lambda>(d, i'). (shiftD (length pre) d, length pre + i')) (directiveAt s i)"
        by (rule directiveAt_shift) simp
      show ?thesis
      proof (cases "directiveAt s i")
        case None
        with lt pc have "parseLoop s i = []" by (subst parseLoop.simps) simp
        moreover from lt pc None da have "parseLoop (pre @ s) (length pre + i) = []"
          by (subst parseLoop.simps) simp
        ultimately show ?thesis by simp
      next
        case (Some x)
        then obtain d i' where sd: "directiveAt s i = Some (d, i')" by (cases x) simp
        have eq: "parseLoop s i = d # parseLoop s i'"
          using lt pc sd by (subst parseLoop.simps) simp
        have eq': "parseLoop (pre @ s) (length pre + i)
            = shiftD (length pre) d # parseLoop (pre @ s) (length pre + i')"
          using lt pc sd da by (subst parseLoop.simps) simp
        have "parseLoop (pre @ s) (length pre + i') = map (shiftD (length pre)) (parseLoop s i')"
          by (rule "1.IH"(2) [OF _ _ sd refl]) (use lt pc in simp_all)
        with eq eq' show ?thesis by simp
      qed
    qed
  qed
qed

lemma parseLoop_text_head:
  "c \<noteq> CHR ''%'' \<Longrightarrow> parseLoop (c # s) 0 = map (shiftD 1) (parseLoop s 0)"
proof -
  assume c: "c \<noteq> CHR ''%''"
  then have "parseLoop (c # s) 0 = parseLoop (c # s) 1" by (subst parseLoop.simps) simp
  also have "\<dots> = map (shiftD 1) (parseLoop s 0)"
    using parseLoop_shift [of "[c]" s 0] by simp
  finally show ?thesis .
qed


lemma directiveAt_literal_head:
  "directiveAt (CHR ''%'' # CHR ''%'' # s) 0
     = Some (\<lparr>start = 0, endpos = 2, hasIndex = False, index = 0, isLiteral = True\<rparr>, 2)"
  by (simp add: directiveAt_def)


lemma parseLoop_literal_head:
  "parseLoop (CHR ''%'' # CHR ''%'' # s) 0
     = \<lparr>start = 0, endpos = 2, hasIndex = False, index = 0, isLiteral = True\<rparr>
       # map (shiftD 2) (parseLoop s 0)"
proof -
  have "parseLoop (CHR ''%'' # CHR ''%'' # s) 0
     = \<lparr>start = 0, endpos = 2, hasIndex = False, index = 0, isLiteral = True\<rparr>
       # parseLoop (CHR ''%'' # CHR ''%'' # s) 2"
    by (subst parseLoop.simps) (simp add: directiveAt_literal_head)
  also have "parseLoop (CHR ''%'' # CHR ''%'' # s) 2 = map (shiftD 2) (parseLoop s 0)"
    using parseLoop_shift [of "[CHR ''%'', CHR ''%'']" s 0] by (simp add: numeral_2_eq_2)
  finally show ?thesis .
qed

text \<open>The count of non-literal placeholders of a template, by the package's own scanner.\<close>

definition placeholders :: "string \<Rightarrow> nat" where
  "placeholders t = length (verbs (parseDirectives t))"

lemma verbs_Cons: "verbs (d # ds) = (if isLiteral d then verbs ds else d # verbs ds)"
  by (simp add: verbs_def)

lemma verbs_shift: "length (verbs (map (shiftD n) ds)) = length (verbs ds)"
  by (induction ds) (auto simp add: verbs_def shiftD_def)

lemma parseLoop_Nil: "parseLoop [] 0 = []"
  by (subst parseLoop.simps) simp


section \<open>The text between the directives\<close>

fun gapsClean :: "string \<Rightarrow> nat \<Rightarrow> directive list \<Rightarrow> bool" where
  "gapsClean format e [] = True"
| "gapsClean format e (d # ds) =
     (CHR ''%'' \<notin> set (slice format e (start d)) \<and> gapsClean format (endpos d) ds)"

text \<open>
  Where the scanner drops a trailing marker: the position of the marker \<^verbatim>\<open>%\<close> at which
  the loop of \<^verbatim>\<open>parseDirectives\<close> ends without a directive because the string ends before
  the verb, or \<open>None\<close> when the loop ends at the end of the string.
\<close>

function droppedMarker :: "string \<Rightarrow> nat \<Rightarrow> nat option" where
  "droppedMarker format i =
     (if \<not> i < length format then None
      else if format ! i \<noteq> CHR ''%'' then droppedMarker format (i + 1)
      else (case directiveAt format i of
              None \<Rightarrow> Some i
            | Some (d, i') \<Rightarrow> droppedMarker format i'))"
  by pat_completeness auto
termination
proof (relation "measure (\<lambda>(format, i). length format - i)")
  show "wf (measure (\<lambda>(format, i). length format - i))" by simp
next
  fix format :: string and i :: nat
  assume "\<not> \<not> i < length format"
  then show "((format, i + 1), (format, i)) \<in> measure (\<lambda>(format, i). length format - i)"
    by simp
next
  fix format :: string and i :: nat and x2 :: "directive \<times> nat" and d :: directive and i' :: nat
  assume a: "\<not> \<not> i < length format" "directiveAt format i = Some x2" "(d, i') = x2"
  then have "directiveAt format i = Some (d, i')" by simp
  from directiveAt_bounds [OF this] a(1)
  show "((format, i'), (format, i)) \<in> measure (\<lambda>(format, i). length format - i)"
    by auto
qed

declare droppedMarker.simps [simp del]

lemma slice_snoc:
  "e \<le> i \<Longrightarrow> i < length format \<Longrightarrow> slice format e (Suc i) = slice format e i @ [format ! i]"
  by (simp add: slice_def Suc_diff_le take_Suc_conv_app_nth)

lemma slice_empty [simp]: "slice format e e = []"
  by (simp add: slice_def)

lemma finalEnd_Cons: "finalEnd e (d # ds) = finalEnd (endpos d) ds"
  by (simp add: finalEnd_def)

lemma parseLoop_gaps:
  "e \<le> i \<Longrightarrow> i \<le> length format \<Longrightarrow> CHR ''%'' \<notin> set (slice format e i) \<Longrightarrow>
   gapsClean format e (parseLoop format i)
   \<and> (droppedMarker format i = None \<longrightarrow>
        CHR ''%'' \<notin> set (drop (finalEnd e (parseLoop format i)) format))"
proof (induction format i arbitrary: e rule: parseLoop.induct)
  case (1 format i)
  note prems = "1.prems"
  show ?case
  proof (cases "i < length format")
    case False
    then have pl: "parseLoop format i = []" by (subst parseLoop.simps) simp
    from False prems have "drop e format = slice format e i" by (simp add: slice_def)
    with pl prems show ?thesis by (simp add: finalEnd_def)
  next
    case lt: True
    show ?thesis
    proof (cases "format ! i = CHR ''%''")
      case False
      with lt have eq: "parseLoop format i = parseLoop format (i + 1)"
        by (subst parseLoop.simps) simp
      from lt False have eq': "droppedMarker format i = droppedMarker format (i + 1)"
        by (subst droppedMarker.simps) simp
      have "CHR ''%'' \<notin> set (slice format e (i + 1))"
        using prems lt False by (simp add: slice_snoc)
      then have "gapsClean format e (parseLoop format (i + 1))
        \<and> (droppedMarker format (i + 1) = None \<longrightarrow>
            CHR ''%'' \<notin> set (drop (finalEnd e (parseLoop format (i + 1))) format))"
        using "1.IH"(1) [of e] lt False prems by simp
      with eq eq' show ?thesis by simp
    next
      case pc: True
      show ?thesis
      proof (cases "directiveAt format i")
        case None
        with lt pc have "parseLoop format i = []" by (subst parseLoop.simps) simp
        moreover from lt pc None have "droppedMarker format i = Some i"
          by (subst droppedMarker.simps) simp
        ultimately show ?thesis by simp
      next
        case (Some x)
        then obtain d i' where s: "directiveAt format i = Some (d, i')" by (cases x) simp
        from directiveAt_bounds [OF s]
        have b: "i + 2 \<le> i'" "i' \<le> length format" "start d = i" "endpos d = i'" by auto
        have eq: "parseLoop format i = d # parseLoop format i'"
          using lt pc s by (subst parseLoop.simps) simp
        have eq': "droppedMarker format i = droppedMarker format i'"
          using lt pc s by (subst droppedMarker.simps) simp
        have "gapsClean format i' (parseLoop format i')
          \<and> (droppedMarker format i' = None \<longrightarrow>
              CHR ''%'' \<notin> set (drop (finalEnd i' (parseLoop format i')) format))"
          by (rule "1.IH"(2) [OF _ _ s refl]) (use lt pc b in simp_all)
        with eq eq' b prems show ?thesis by (simp add: finalEnd_Cons)
      qed
    qed
  qed
qed

lemma parseDirectives_gaps:
  "gapsClean format 0 (parseDirectives format)
   \<and> (droppedMarker format 0 = None \<longrightarrow>
        CHR ''%'' \<notin> set (drop (finalEnd 0 (parseDirectives format)) format))"
  unfolding parseDirectives_def by (rule parseLoop_gaps) simp_all

text \<open>
  The template with the text \<open>lit\<close> in place of every literal directive and the pieces
  \<open>ps\<close>, in source order, in place of the verbs; the text between and after the
  directives is kept.
\<close>

fun splice :: "string \<Rightarrow> string \<Rightarrow> nat \<Rightarrow> directive list \<Rightarrow> string list \<Rightarrow> string" where
  "splice format lit e [] ps = drop e format"
| "splice format lit e (d # ds) ps =
     slice format e (start d) @
     (if isLiteral d then lit @ splice format lit (endpos d) ds ps
      else (case ps of
              [] \<Rightarrow> splice format lit (endpos d) ds []
            | p # ps' \<Rightarrow> p @ splice format lit (endpos d) ds ps'))"


lemma splice_clean:
  assumes "gapsClean format e ds"
    and "CHR ''%'' \<notin> set (drop (finalEnd e ds) format)"
    and "length fs = length (verbs ds)" and "length tokss = length (verbs ds)"
    and "\<forall>j < length fs. cleanHoles (fs ! j) = Some (length (tokss ! j))"
  shows "cleanHoles (splice format ''%%'' e ds fs) = Some (length (concat tokss))
       \<and> fill (splice format ''%%'' e ds fs) (concat tokss)
           = splice format ''%'' e ds (map (\<lambda>(f, toks). fill f toks) (zip fs tokss))"
  using assms
proof (induction ds arbitrary: e fs tokss)
  case Nil
  then show ?case
    using cleanHoles_text [of "drop e format" "[]"] fill_text [of "drop e format" "[]" "[]"]
    by (simp add: finalEnd_def verbs_def)
next
  case (Cons d ds)
  from Cons.prems(1) have gap: "CHR ''%'' \<notin> set (slice format e (start d))"
    and gaps: "gapsClean format (endpos d) ds" by simp_all
  from Cons.prems(2) have tail: "CHR ''%'' \<notin> set (drop (finalEnd (endpos d) ds) format)"
    by (simp add: finalEnd_Cons)
  show ?case
  proof (cases "isLiteral d")
    case True
    with Cons.prems have l: "length fs = length (verbs ds)" "length tokss = length (verbs ds)"
      by (simp_all add: verbs_Cons)
    note ih = Cons.IH [OF gaps tail l Cons.prems(5)]
    have c1: "cleanHoles (''%%'' @ splice format ''%%'' (endpos d) ds fs) = Some (length (concat tokss))"
      using ih by simp
    have f1: "fill (''%%'' @ splice format ''%%'' (endpos d) ds fs) (concat tokss)
        = ''%'' @ splice format ''%'' (endpos d) ds (map (\<lambda>(f, toks). fill f toks) (zip fs tokss))"
      using ih by simp
    from True gap c1 f1 show ?thesis
      by (simp add: cleanHoles_text fill_text del: cleanHoles.simps fill.simps)
  next
    case False
    with Cons.prems obtain f fs' toks tokss' where
      fs: "fs = f # fs'" and ts: "tokss = toks # tokss'"
      and l: "length fs' = length (verbs ds)" "length tokss' = length (verbs ds)"
      by (cases fs; cases tokss) (auto simp add: verbs_Cons)
    from Cons.prems(5) fs ts have f: "cleanHoles f = Some (length toks)"
      and rest: "\<forall>j < length fs'. cleanHoles (fs' ! j) = Some (length (tokss' ! j))"
      by auto
    note ih = Cons.IH [OF gaps tail l rest]
    have c1: "cleanHoles (f @ splice format ''%%'' (endpos d) ds fs')
        = Some (length (concat tokss))"
      using cleanHoles_append [OF f] ih ts by simp
    have f1: "fill (f @ splice format ''%%'' (endpos d) ds fs') (toks @ concat tokss')
        = fill f toks @ splice format ''%'' (endpos d) ds (map (\<lambda>(f, toks). fill f toks) (zip fs' tokss'))"
      using fill_append [OF f refl] ih by simp
    from False gap c1 f1 fs ts show ?thesis
      by (simp add: cleanHoles_text fill_text del: cleanHoles.simps fill.simps)
  qed
qed

section \<open>Well-formed queries\<close>


definition wellFormed :: "'v Query \<Rightarrow> bool" where
  "wellFormed q =
     (cleanHoles (fmt q) = Some (length (normIndices q)) \<and> argIndices q \<noteq> Some [])"







lemma Query_Query_wf:
  assumes "wellFormed q"
  shows "Query_Query q bv = Some (fill (fmt q) (map bv (normIndices q)))"
proof (cases "argIndices q")
  case None
  with assms have "cleanHoles (fmt q) = Some (length (args q))"
    by (simp add: wellFormed_def normIndices_def)
  then have "fmtSprintf (fmt q) (map (\<lambda>i. bv (int i)) [0..<length (args q)])
      = Some (fill (fmt q) (map (\<lambda>i. bv (int i)) [0..<length (args q)]))"
    by (intro fmtSprintf_clean) simp
  with None show ?thesis by (simp add: Query_Query_def normIndices_def comp_def)
next
  case (Some idxs)
  with assms have "cleanHoles (fmt q) = Some (length idxs)"
    by (simp add: wellFormed_def normIndices_def)
  then have "fmtSprintf (fmt q) (map bv idxs) = Some (fill (fmt q) (map bv idxs))"
    by (intro fmtSprintf_clean) simp
  with Some show ?thesis by (simp add: Query_Query_def normIndices_def)
qed

text \<open>The text rendered for one reference.\<close>

definition renderRef :: "'v heap \<Rightarrow> (int \<Rightarrow> string) \<Rightarrow> int \<Rightarrow> ref \<Rightarrow> string" where
  "renderRef heap bv off k =
     fill (refFmt heap k) (map (\<lambda>i. bv (off + i)) (refIndices heap k))"


















section \<open>The dropped trailing marker\<close>

lemma slice_take: "b \<le> k \<Longrightarrow> slice (take k format) a b = slice format a b"
proof -
  assume "b \<le> k"
  then have "b - a \<le> k - a" by simp
  then show ?thesis by (simp add: slice_def drop_take min_absorb1)
qed












section \<open>Plain directives\<close>

text \<open>
  A plain directive, after its marker: flags among \<^verbatim>\<open>#0+-\<close> and the space, a width of
  at most seven decimal digits, an optional precision (a dot and at most seven decimal
  digits), and a verb that is an ASCII letter other than \<^verbatim>\<open>T\<close>, \<^verbatim>\<open>p\<close> and \<^verbatim>\<open>w\<close>. It has
  no explicit index, no wildcard and no apostrophe. \<open>plainLen\<close> is its length.
\<close>

definition plainVerb :: "char \<Rightarrow> bool" where
  "plainVerb c = (c \<in> set ''abcdefghijklmnoqrstuvxyzABCDEFGHIJKLMNOPQRSUVWXYZ'')"

definition plainLen :: "string \<Rightarrow> nat option" where
  "plainLen s0 =
     (let s1 = dropWhile fmtFlag s0;
          s2 = dropWhile isDigit s1;
          dot = (s2 \<noteq> [] \<and> hd s2 = CHR ''.'');
          s3 = (if dot then dropWhile isDigit (tl s2) else s2)
      in if s3 \<noteq> [] \<and> plainVerb (hd s3) \<and> length (takeWhile isDigit s1) \<le> 7
            \<and> (dot \<longrightarrow> length (takeWhile isDigit (tl s2)) \<le> 7)
         then Some (length s0 - length s3 + 1) else None)"

lemma plainVerb_facts:
  assumes "plainVerb v"
  shows "v \<noteq> CHR ''%''" "v \<noteq> CHR ''[''" "v \<noteq> CHR ''*''" "v \<noteq> CHR ''.''"
    "\<not> isDigit v" "\<not> isFlag v" "\<not> fmtFlag v" "\<not> (of_char v :: nat) \<ge> 128" "v \<notin> set ''Tpw''"
  using assms by (auto simp add: plainVerb_def isDigit_def isFlag_def fmtFlag_def)

lemma digit_facts:
  assumes "isDigit c"
  shows "c \<noteq> CHR ''%''" "c \<noteq> CHR ''[''" "c \<noteq> CHR ''*''" "c \<noteq> CHR ''.''" "c \<noteq> CHR 0x27"
    "digitVal c \<le> 9"
  using assms by (auto simp add: isDigit_def digitVal_def)

lemma fmtFlag_facts:
  assumes "fmtFlag c"
  shows "c \<noteq> CHR ''%''" "c \<noteq> CHR ''[''" "isFlag c"
  using assms by (auto simp add: fmtFlag_def isFlag_def)

text \<open>The parts of a plain directive.\<close>

lemma plainLen_shape:
  assumes "plainLen s0 = Some n"
  obtains fl w pr v rest where
    "s0 = fl @ w @ pr @ v # rest" "n = length fl + length w + length pr + 1"
    "\<forall>c \<in> set fl. fmtFlag c" "\<forall>c \<in> set w. isDigit c" "length w \<le> 7"
    "pr = [] \<or> (\<exists>pd. pr = CHR ''.'' # pd \<and> (\<forall>c \<in> set pd. isDigit c) \<and> length pd \<le> 7)"
    "plainVerb v" "w \<noteq> [] \<longrightarrow> \<not> fmtFlag (hd w)"
proof -
  define s1 where "s1 = dropWhile fmtFlag s0"
  define s2 where "s2 = dropWhile isDigit s1"
  define dot where "dot = (s2 \<noteq> [] \<and> hd s2 = CHR ''.'')"
  define s3 where "s3 = (if dot then dropWhile isDigit (tl s2) else s2)"
  define fl where "fl = takeWhile fmtFlag s0"
  define w where "w = takeWhile isDigit s1"
  define pr where "pr = (if dot then CHR ''.'' # takeWhile isDigit (tl s2) else [])"
  from assms have c: "s3 \<noteq> []" "plainVerb (hd s3)" "length w \<le> 7"
    "dot \<longrightarrow> length (takeWhile isDigit (tl s2)) \<le> 7"
    and n: "n = length s0 - length s3 + 1"
    by (auto simp add: plainLen_def Let_def s1_def s2_def dot_def s3_def w_def split: if_splits)
  have e0: "s0 = fl @ s1" by (simp add: fl_def s1_def)
  have e1: "s1 = w @ s2" by (simp add: w_def s2_def)
  have e2: "s2 = pr @ s3"
  proof (cases dot)
    case True
    then have "s2 = CHR ''.'' # tl s2" by (cases s2) (auto simp add: dot_def)
    also have "tl s2 = takeWhile isDigit (tl s2) @ dropWhile isDigit (tl s2)" by simp
    finally show ?thesis using True by (simp add: pr_def s3_def)
  next
    case False
    then show ?thesis by (simp add: pr_def s3_def)
  qed
  obtain v rest where e3: "s3 = v # rest" using c(1) by (cases s3) auto
  have s: "s0 = fl @ w @ pr @ v # rest" using e0 e1 e2 e3 by simp
  have len: "n = length fl + length w + length pr + 1" using n s e3 by simp
  have f1: "\<forall>c \<in> set fl. fmtFlag c" by (auto simp add: fl_def dest: set_takeWhileD)
  have f2: "\<forall>c \<in> set w. isDigit c" by (auto simp add: w_def dest: set_takeWhileD)
  have f3: "pr = [] \<or> (\<exists>pd. pr = CHR ''.'' # pd \<and> (\<forall>c \<in> set pd. isDigit c) \<and> length pd \<le> 7)"
    using c(4) by (auto simp add: pr_def dest: set_takeWhileD)
  have f4: "plainVerb v" using c(2) e3 by simp
  have f5: "w \<noteq> [] \<longrightarrow> \<not> fmtFlag (hd w)"
  proof
    assume "w \<noteq> []"
    then have "s1 \<noteq> []" "hd w = hd s1" using e1 by (auto simp add: hd_append)
    moreover have "s1 \<noteq> [] \<Longrightarrow> \<not> fmtFlag (hd s1)"
      unfolding s1_def by (rule hd_dropWhile)
    ultimately show "\<not> fmtFlag (hd w)" by simp
  qed
  from that [OF s len f1 f2 c(3) f3 f4 f5] show thesis .
qed

lemma takeWhile_prefix:
  "\<forall>x \<in> set xs. P x \<Longrightarrow> ys = [] \<or> \<not> P (hd ys) \<Longrightarrow> takeWhile P (xs @ ys) = xs"
  by (cases ys) (auto simp add: takeWhile_append2 intro: takeWhile_eq_all_conv [THEN iffD2])

lemma dropWhile_prefix:
  "\<forall>x \<in> set xs. P x \<Longrightarrow> ys = [] \<or> \<not> P (hd ys) \<Longrightarrow> dropWhile P (xs @ ys) = ys"
  by (cases ys) (auto simp add: dropWhile_append2)

text \<open>\<^verbatim>\<open>parsenum\<close> reads at most seven digits without giving up.\<close>

lemma parsenumLoop_digits:
  assumes "\<forall>c \<in> set w. isDigit c" and "r = [] \<or> \<not> isDigit (hd r)"
    and "num < 10 ^ k" and "k + length w \<le> 7"
  shows "\<exists>num'. parsenumLoop num b (w @ r) = (num', b \<or> w \<noteq> [], r)"
  using assms
proof (induction w arbitrary: num k b)
  case Nil
  then show ?case by (cases r) auto
next
  case (Cons c w)
  from Cons.prems have c: "isDigit c" and k: "k \<le> 6" by simp_all
  from k have "(10::nat) ^ k \<le> 10 ^ 6" by (intro power_increasing) simp_all
  with Cons.prems(3) have nt: "\<not> tooLarge num" by (simp add: tooLarge_def)
  from digit_facts(6) [OF c] Cons.prems(3) have n': "num * 10 + digitVal c < 10 ^ Suc k" by simp
  from Cons.prems have "\<forall>c \<in> set w. isDigit c" "Suc k + length w \<le> 7" by simp_all
  from Cons.IH [OF this(1) Cons.prems(2) n' this(2), of True] obtain num' where
    "parsenumLoop (num * 10 + digitVal c) True (w @ r) = (num', True, r)" by auto
  with c nt show ?case by simp
qed

lemma parsenum_digits:
  assumes "\<forall>c \<in> set w. isDigit c" and "r = [] \<or> \<not> isDigit (hd r)" and "length w \<le> 7"
  shows "\<exists>num. parsenum (w @ r) = (num, w \<noteq> [], r)"
  using parsenumLoop_digits [OF assms(1,2), of 0 0 False] assms(3)
  by (simp add: parsenum_def)

text \<open>\<^verbatim>\<open>fmt.Sprintf\<close> on a plain directive: the next argument is written.\<close>

lemma fmtDirective_plain:
  assumes pl: "plainLen s0 = Some n" and lt: "argNum p < length a"
  shows "fmtDirective a p (take n s0 @ X)
     = Some (a ! argNum p, p\<lparr>goodArgNum := True, argNum := argNum p + 1\<rparr>, X)"
proof -
  from pl obtain fl w pr v rest where
    s: "s0 = fl @ w @ pr @ v # rest" and n: "n = length fl + length w + length pr + 1"
    and fl: "\<forall>c \<in> set fl. fmtFlag c" and w: "\<forall>c \<in> set w. isDigit c" "length w \<le> 7"
    and pr: "pr = [] \<or> (\<exists>pd. pr = CHR ''.'' # pd \<and> (\<forall>c \<in> set pd. isDigit c) \<and> length pd \<le> 7)"
    and v: "plainVerb v" and hw: "w \<noteq> [] \<longrightarrow> \<not> fmtFlag (hd w)"
    by (rule plainLen_shape)
  have sx: "take n s0 @ X = fl @ w @ pr @ v # X" unfolding s n by simp
  note vf = plainVerb_facts [OF v]
  let ?p = "p\<lparr>goodArgNum := True\<rparr>"
  let ?t1 = "w @ pr @ v # X"
  let ?t2 = "pr @ v # X"
  have h1: "?t1 \<noteq> []" "\<not> fmtFlag (hd ?t1)" "hd ?t1 \<noteq> CHR ''[''" "hd ?t1 \<noteq> CHR ''*''"
    using w(1) pr vf hw digit_facts
    by (cases w; cases pr; auto simp add: fmtFlag_def)+
  have h2: "?t2 \<noteq> []" "\<not> isDigit (hd ?t2)"
    using pr vf by (cases pr; auto simp add: isDigit_def)+
  have d1: "dropWhile fmtFlag (take n s0 @ X) = ?t1"
    unfolding sx using fl h1 by (intro dropWhile_prefix) auto
  have a1: "argNumber ?p ?t1 (length a) = (?p, ?t1, False)"
    using h1 by (cases ?t1) (auto simp add: argNumber_def)
  from parsenum_digits [OF w(1) _ w(2), of ?t2] h2 obtain num where
    pn: "parsenum ?t1 = (num, w \<noteq> [], ?t2)" by auto
  have wd: "fmtWidth a ?p ?t1 False = ([], ?p, ?t2, False)"
    using h1 pn by (simp add: fmtWidth_def)
  have pc: "fmtPrecision a ?p ?t2 False = ([], ?p, v # X, False)"
  proof (cases "pr = []")
    case True
    with vf show ?thesis by (simp add: fmtPrecision_def)
  next
    case False
    with pr obtain pd where pd: "pr = CHR ''.'' # pd" "\<forall>c \<in> set pd. isDigit c" "length pd \<le> 7"
      by auto
    have h3: "hd (pd @ v # X) \<noteq> CHR ''[''" "hd (pd @ v # X) \<noteq> CHR ''*''"
      using pd(2) vf digit_facts by (cases pd; auto)+
    have a2: "argNumber ?p (pd @ v # X) (length a) = (?p, pd @ v # X, False)"
      using h3 by (cases "pd @ v # X") (auto simp add: argNumber_def)
    from parsenum_digits [OF pd(2) _ pd(3), of "v # X"] vf obtain num2 where
      pn2: "parsenum (pd @ v # X) = (num2, pd \<noteq> [], v # X)" by auto
    show ?thesis
      unfolding pd(1) using a2 pn2 h3 by (simp add: fmtPrecision_def)
  qed
  have a3: "argNumber ?p (v # X) (length a) = (?p, v # X, False)"
    using vf by (simp add: argNumber_def)
  have vb: "fmtVerb a ?p (v # X) = Some (a ! argNum p, ?p\<lparr>argNum := argNum p + 1\<rparr>, X)"
    using vf lt by (simp add: fmtVerb_def)
  show ?thesis
    by (simp add: fmtDirective_def d1 a1 wd pc a3 vb)
qed

lemma plainLen_text:
  assumes "plainLen s0 = Some n"
  shows "0 < n \<and> n \<le> length s0 \<and> CHR ''%'' \<notin> set (take n s0)"
proof -
  from assms obtain fl w pr v rest where
    s: "s0 = fl @ w @ pr @ v # rest" and n: "n = length fl + length w + length pr + 1"
    and fl: "\<forall>c \<in> set fl. fmtFlag c" and w: "\<forall>c \<in> set w. isDigit c" "length w \<le> 7"
    and pr: "pr = [] \<or> (\<exists>pd. pr = CHR ''.'' # pd \<and> (\<forall>c \<in> set pd. isDigit c) \<and> length pd \<le> 7)"
    and v: "plainVerb v"
    by (rule plainLen_shape)
  have "take n s0 = fl @ w @ pr @ [v]" unfolding s n by simp
  moreover have "CHR ''%'' \<notin> set (fl @ w @ pr @ [v])"
    using fl w(1) pr plainVerb_facts(1) [OF v] fmtFlag_facts(1) digit_facts(1) by fastforce
  ultimately show ?thesis using s n by simp
qed

text \<open>The scanner of the package on a plain directive: one implicit verb of the same length.\<close>

lemma directiveAt_plain:
  assumes pl: "plainLen s0 = Some n"
  shows "directiveAt (CHR ''%'' # s0) 0
     = Some (\<lparr>start = 0, endpos = n + 1, hasIndex = False, index = 0, isLiteral = False\<rparr>, n + 1)"
proof -
  from pl obtain fl w pr v rest where
    s: "s0 = fl @ w @ pr @ v # rest" and n: "n = length fl + length w + length pr + 1"
    and fl: "\<forall>c \<in> set fl. fmtFlag c" and w: "\<forall>c \<in> set w. isDigit c" "length w \<le> 7"
    and pr: "pr = [] \<or> (\<exists>pd. pr = CHR ''.'' # pd \<and> (\<forall>c \<in> set pd. isDigit c) \<and> length pd \<le> 7)"
    and v: "plainVerb v" and hw: "w \<noteq> [] \<longrightarrow> \<not> fmtFlag (hd w)"
    by (rule plainLen_shape)
  note vf = plainVerb_facts [OF v]
  let ?f = "CHR ''%'' # s0"
  let ?t1 = "w @ pr @ v # rest"
  let ?t2 = "pr @ v # rest"
  let ?i2 = "1 + length fl"
  let ?i3 = "1 + length fl + length w"
  let ?i4 = "1 + length fl + length w + length pr"
  have nth: "\<And>k x xs. drop k ?f = x # xs \<Longrightarrow> k < length ?f \<and> ?f ! k = x"
    by (metis drop_all hd_drop_conv_nth linorder_not_less list.distinct(1) list.sel(1))
  have d1: "drop 1 ?f = s0" by simp
  have d2: "drop ?i2 ?f = ?t1" unfolding s by simp
  have d3: "drop ?i3 ?f = ?t2" unfolding s by simp
  have d4: "drop ?i4 ?f = v # rest" unfolding s by simp
  have h0: "s0 \<noteq> []" "hd s0 \<noteq> CHR ''%''" "hd s0 \<noteq> CHR ''[''"
    unfolding s using fl w(1) pr vf fmtFlag_facts digit_facts
    by (cases fl; cases w; cases pr; auto)+
  have h1: "?t1 \<noteq> []" "\<not> isFlag (hd ?t1)" "hd ?t1 \<noteq> CHR ''*''"
    using w(1) pr vf hw digit_facts
    by (cases w; cases pr; auto simp add: fmtFlag_def isFlag_def)+
  have h2: "?t2 \<noteq> []" "\<not> isDigit (hd ?t2)"
    using pr vf by (cases pr; auto simp add: isDigit_def)+
  obtain c0 r0 where c0: "s0 = c0 # r0" using h0(1) by (cases s0) auto
  from nth [of 1 c0 r0] d1 c0 h0 have n1: "1 < length ?f" "?f ! 1 \<noteq> CHR ''%''" "?f ! 1 \<noteq> CHR ''[''"
    by auto
  have pi: "parseIndex ?f 1 = (False, 0, 1)" using n1 by (simp add: parseIndex_def)
  have sf: "skipFlags ?f 1 = ?i2"
  proof -
    have "takeWhile isFlag s0 = fl"
      unfolding s using fl fmtFlag_facts(3) h1 by (intro takeWhile_prefix) auto
    then show ?thesis unfolding skipFlags_def d1 by simp
  qed
  obtain c1 r1 where c1: "?t1 = c1 # r1" using h1(1) by (cases ?t1) auto
  from nth [of ?i2 c1 r1] d2 c1 h1 have n2: "?f ! ?i2 \<noteq> CHR ''*''" by auto
  have sw: "skipWidth ?f ?i2 = ?i3"
  proof -
    have "takeWhile isDigit ?t1 = w" using w(1) h2 by (intro takeWhile_prefix) auto
    then show ?thesis unfolding skipWidth_def skipDigits_def d2 using n2 by simp
  qed
  have sp: "skipPrecision ?f ?i3 = ?i4"
  proof (cases "pr = []")
    case True
    with d3 nth [of ?i3 v rest] vf have "?f ! ?i3 \<noteq> CHR ''.''" by auto
    with True show ?thesis by (simp add: skipPrecision_def)
  next
    case False
    with pr obtain pd where pd: "pr = CHR ''.'' # pd" "\<forall>c \<in> set pd. isDigit c" by auto
    from d3 pd nth [of ?i3 "CHR ''.''" "pd @ v # rest"]
    have a: "?i3 < length ?f" "?f ! ?i3 = CHR ''.''" by auto
    have d3': "drop (?i3 + 1) ?f = pd @ v # rest" unfolding s pd by simp
    obtain c3 r3 where c3: "pd @ v # rest = c3 # r3" by (cases "pd @ v # rest") auto
    have "c3 \<noteq> CHR ''*''" using c3 pd(2) vf digit_facts by (cases pd) auto
    with nth [of "?i3 + 1" c3 r3] d3' c3 have b: "?f ! (?i3 + 1) \<noteq> CHR ''*''" by auto
    have "takeWhile isDigit (pd @ v # rest) = pd" using pd(2) vf by (intro takeWhile_prefix) auto
    then have "skipDigits ?f (?i3 + 1) = ?i3 + 1 + length pd"
      unfolding skipDigits_def d3' by simp
    with a b pd show ?thesis by (simp add: skipPrecision_def)
  qed
  from nth [of ?i4 v rest] d4 have n4: "?i4 < length ?f" by auto
  show ?thesis
    unfolding directiveAt_def Let_def using n1 pi sf sw sp n4 n by simp
qed

section \<open>Plain templates\<close>

text \<open>
  A plain template: every marker starts a literal \<^verbatim>\<open>%%\<close> or a plain directive.
  \<open>plainHoles\<close> counts its plain directives, and is \<open>None\<close> for any other template.
\<close>

fun plainHoles :: "string \<Rightarrow> nat option" where
  "plainHoles [] = Some 0"
| "plainHoles (c # s) =
     (if c \<noteq> CHR ''%'' then plainHoles s
      else if s \<noteq> [] \<and> hd s = CHR ''%'' then plainHoles (tl s)
      else (case plainLen s of
              None \<Rightarrow> None
            | Some n \<Rightarrow> map_option Suc (plainHoles (drop n s))))"

text \<open>The doubling of the literals leaves the rest of a plain template as it is.\<close>

lemma escapePercents_text_head:
  "c \<noteq> CHR ''%'' \<Longrightarrow> escapePercents (c # s) = c # escapePercents s"
  by (cases s) simp_all

lemma escapePercents_text:
  "CHR ''%'' \<notin> set t \<Longrightarrow> escapePercents (t @ s) = t @ escapePercents s"
proof (induction t)
  case Nil
  then show ?case by simp
next
  case (Cons c t)
  then have c: "c \<noteq> CHR ''%''" and ih: "escapePercents (t @ s) = t @ escapePercents s" by auto
  from escapePercents_text_head [OF c, of "t @ s"] ih show ?case by simp
qed

lemma escapePercents_marker:
  "s \<noteq> [] \<Longrightarrow> hd s \<noteq> CHR ''%'' \<Longrightarrow> escapePercents (CHR ''%'' # s) = CHR ''%'' # escapePercents s"
  by (cases s) simp_all

lemma escapePercents_plain:
  assumes "plainLen s = Some k"
  shows "escapePercents (CHR ''%'' # s) = CHR ''%'' # take k s @ escapePercents (drop k s)"
proof -
  from plainLen_text [OF assms] have k: "0 < k" "k \<le> length s" "CHR ''%'' \<notin> set (take k s)"
    by simp_all
  then have ne: "s \<noteq> []" by auto
  with k have "hd s \<in> set (take k s)" by (cases s; cases k) auto
  with k(3) have "hd s \<noteq> CHR ''%''" by auto
  from escapePercents_marker [OF ne this] escapePercents_text [OF k(3), of "drop k s"]
  show ?thesis by simp
qed

text \<open>\<open>splice\<close> and \<open>droppedMarker\<close> on a suffix of the template.\<close>

lemma slice_shift:
  "slice (pre @ s) (length pre + a) (length pre + b) = slice s a b"
  by (simp add: slice_def)

lemma splice_shift:
  "splice (pre @ s) lit (length pre + e) (map (shiftD (length pre)) ds) ps = splice s lit e ds ps"
proof (induction ds arbitrary: e ps)
  case Nil
  then show ?case by simp
next
  case (Cons d ds)
  have sl: "slice (pre @ s) (length pre + e) (length pre + start d) = slice s e (start d)"
    by (rule slice_shift)
  show ?case
    by (cases ps) (simp_all add: shiftD_def sl Cons.IH [unfolded shiftD_def])
qed

lemma splice_shift0:
  "splice (pre @ s) lit 0 (map (shiftD (length pre)) ds) ps = pre @ splice s lit 0 ds ps"
proof (cases ds)
  case Nil
  then show ?thesis by simp
next
  case (Cons d ds')
  have sl: "slice (pre @ s) 0 (length pre + start d) = pre @ slice s 0 (start d)"
    by (simp add: slice_def)
  have r: "\<And>ps. splice (pre @ s) lit (length pre + endpos d) (map (shiftD (length pre)) ds') ps
      = splice s lit (endpos d) ds' ps"
    by (rule splice_shift)
  show ?thesis
    unfolding Cons list.map splice.simps r
    by (cases ps) (simp_all add: shiftD_def sl r)
qed

lemma droppedMarker_shift:
  "droppedMarker (pre @ s) (length pre + i) = map_option (\<lambda>j. length pre + j) (droppedMarker s i)"
proof (induction s i rule: droppedMarker.induct)
  case (1 s i)
  show ?case
  proof (cases "i < length s")
    case False
    then have "droppedMarker s i = None" by (subst droppedMarker.simps) simp
    moreover from False have "droppedMarker (pre @ s) (length pre + i) = None"
      by (subst droppedMarker.simps) simp
    ultimately show ?thesis by simp
  next
    case lt: True
    show ?thesis
    proof (cases "s ! i = CHR ''%''")
      case False
      with lt have eq: "droppedMarker s i = droppedMarker s (i + 1)"
        by (subst droppedMarker.simps) simp
      from lt False have eq': "droppedMarker (pre @ s) (length pre + i)
          = droppedMarker (pre @ s) (length pre + i + 1)"
        by (subst droppedMarker.simps) simp
      have "droppedMarker (pre @ s) (length pre + (i + 1))
          = map_option (\<lambda>j. length pre + j) (droppedMarker s (i + 1))"
        by (rule "1.IH"(1)) (use lt False in simp_all)
      with eq eq' show ?thesis by (simp add: add.assoc)
    next
      case pc: True
      have da: "directiveAt (pre @ s) (length pre + i)
         = map_option (\<lambda>(d, i'). (shiftD (length pre) d, length pre + i')) (directiveAt s i)"
        by (rule directiveAt_shift) simp
      show ?thesis
      proof (cases "directiveAt s i")
        case None
        with lt pc have "droppedMarker s i = Some i" by (subst droppedMarker.simps) simp
        moreover from lt pc None da have "droppedMarker (pre @ s) (length pre + i) = Some (length pre + i)"
          by (subst droppedMarker.simps) simp
        ultimately show ?thesis by simp
      next
        case (Some x)
        then obtain d i' where sd: "directiveAt s i = Some (d, i')" by (cases x) simp
        have eq: "droppedMarker s i = droppedMarker s i'"
          using lt pc sd by (subst droppedMarker.simps) simp
        have eq': "droppedMarker (pre @ s) (length pre + i)
            = droppedMarker (pre @ s) (length pre + i')"
          using lt pc sd da by (subst droppedMarker.simps) simp
        have "droppedMarker (pre @ s) (length pre + i')
            = map_option (\<lambda>j. length pre + j) (droppedMarker s i')"
          by (rule "1.IH"(2) [OF _ _ sd refl]) (use lt pc in simp_all)
        with eq eq' show ?thesis by simp
      qed
    qed
  qed
qed

lemma parseLoop_plain_head:
  assumes "plainLen s = Some k"
  shows "parseLoop (CHR ''%'' # s) 0
     = \<lparr>start = 0, endpos = k + 1, hasIndex = False, index = 0, isLiteral = False\<rparr>
       # map (shiftD (k + 1)) (parseLoop (drop k s) 0)"
proof -
  from plainLen_text [OF assms] have k: "k \<le> length s" by simp
  have "parseLoop (CHR ''%'' # s) 0
     = \<lparr>start = 0, endpos = k + 1, hasIndex = False, index = 0, isLiteral = False\<rparr>
       # parseLoop (CHR ''%'' # s) (k + 1)"
    by (subst parseLoop.simps) (simp add: directiveAt_plain [OF assms])
  also have "parseLoop (CHR ''%'' # s) (k + 1) = map (shiftD (k + 1)) (parseLoop (drop k s) 0)"
    using parseLoop_shift [of "CHR ''%'' # take k s" "drop k s" 0] k by simp
  finally show ?thesis .
qed

lemma droppedMarker_text_head:
  "c \<noteq> CHR ''%'' \<Longrightarrow> droppedMarker s 0 = None \<Longrightarrow> droppedMarker (c # s) 0 = None"
proof -
  assume c: "c \<noteq> CHR ''%''" and n: "droppedMarker s 0 = None"
  have "droppedMarker (c # s) 0 = droppedMarker (c # s) 1"
    using c by (subst droppedMarker.simps) simp
  also have "\<dots> = None" using droppedMarker_shift [of "[c]" s 0] n by simp
  finally show ?thesis .
qed

lemma droppedMarker_literal_head:
  "droppedMarker s 0 = None \<Longrightarrow> droppedMarker (CHR ''%'' # CHR ''%'' # s) 0 = None"
proof -
  assume n: "droppedMarker s 0 = None"
  have "droppedMarker (CHR ''%'' # CHR ''%'' # s) 0 = droppedMarker (CHR ''%'' # CHR ''%'' # s) 2"
    by (subst droppedMarker.simps) (simp add: directiveAt_literal_head)
  also have "\<dots> = None"
    using droppedMarker_shift [of "[CHR ''%'', CHR ''%'']" s 0] n by (simp add: numeral_2_eq_2)
  finally show ?thesis .
qed

lemma droppedMarker_plain_head:
  assumes "plainLen s = Some k" and n: "droppedMarker (drop k s) 0 = None"
  shows "droppedMarker (CHR ''%'' # s) 0 = None"
proof -
  from plainLen_text [OF assms(1)] have k: "k \<le> length s" by simp
  have "droppedMarker (CHR ''%'' # s) 0 = droppedMarker (CHR ''%'' # s) (k + 1)"
    by (subst droppedMarker.simps) (simp add: directiveAt_plain [OF assms(1)])
  also have "\<dots> = None"
    using droppedMarker_shift [of "CHR ''%'' # take k s" "drop k s" 0] k n by simp
  finally show ?thesis .
qed

lemma hasIndex_shift: "list_ex hasIndex (map (shiftD n) ds) = list_ex hasIndex ds"
  by (induction ds) (auto simp add: shiftD_def)

text \<open>
  The scanner on a plain template: as many verbs as plain directives, none with an
  explicit index, and no dropped marker.
\<close>

lemma plain_scan:
  "plainHoles format = Some n \<Longrightarrow>
   length (verbs (parseLoop format 0)) = n \<and> droppedMarker format 0 = None
   \<and> \<not> list_ex hasIndex (parseLoop format 0)"
proof (induction format arbitrary: n rule: plainHoles.induct)
  case 1
  have "droppedMarker [] 0 = None" by (subst droppedMarker.simps) simp
  with 1 show ?case by (simp add: parseLoop_Nil verbs_def)
next
  case (2 c s)
  show ?case
  proof (cases "c \<noteq> CHR ''%''")
    case True
    with "2.prems" have "plainHoles s = Some n" by simp
    from "2.IH"(1) [OF True this] parseLoop_text_head [OF True, of s]
      droppedMarker_text_head [OF True, of s]
    show ?thesis by (simp add: verbs_shift hasIndex_shift)
  next
    case pc: False
    show ?thesis
    proof (cases "s \<noteq> [] \<and> hd s = CHR ''%''")
      case True
      then obtain s' where s: "s = CHR ''%'' # s'" by (cases s) auto
      with pc "2.prems" have "plainHoles s' = Some n" by simp
      with "2.IH"(2) [OF pc True] s have
        ih: "length (verbs (parseLoop s' 0)) = n \<and> droppedMarker s' 0 = None
          \<and> \<not> list_ex hasIndex (parseLoop s' 0)" by simp
      with pc s droppedMarker_literal_head [of s'] show ?thesis
        by (simp add: parseLoop_literal_head verbs_Cons verbs_shift hasIndex_shift)
    next
      case False
      with pc "2.prems" obtain k m where k: "plainLen s = Some k"
        and m: "plainHoles (drop k s) = Some m" "n = Suc m"
        by (auto split: option.splits if_splits)
      from "2.IH"(3) [OF pc False k m(1)] have
        ih: "length (verbs (parseLoop (drop k s) 0)) = m \<and> droppedMarker (drop k s) 0 = None
          \<and> \<not> list_ex hasIndex (parseLoop (drop k s) 0)" .
      with pc m droppedMarker_plain_head [OF k] show ?thesis
        by (simp add: parseLoop_plain_head [OF k] verbs_Cons verbs_shift hasIndex_shift)
    qed
  qed
qed

text \<open>
  The call of \<^verbatim>\<open>fmt.Sprintf\<close> on the legacy path, for a plain template with one argument
  per directive: every directive is replaced by its argument and every literal is kept.
\<close>

lemma doPrintf_pass1:
  "plainHoles format = Some n \<Longrightarrow> length a = argNum p + n \<Longrightarrow> \<not> reordered p \<Longrightarrow>
   doPrintf a p (escapePercents format)
     = Some (splice format ''%%'' 0 (parseLoop format 0) (drop (argNum p) a))"
proof (induction format arbitrary: n p rule: plainHoles.induct)
  case 1
  then show ?case by (simp add: parseLoop_Nil extraArgs_def)
next
  case (2 c s)
  show ?case
  proof (cases "c \<noteq> CHR ''%''")
    case True
    with "2.prems" have "plainHoles s = Some n" by simp
    note ih = "2.IH"(1) [OF True this "2.prems"(2,3)]
    have sp: "splice (c # s) ''%%'' 0 (parseLoop (c # s) 0) (drop (argNum p) a)
        = c # splice s ''%%'' 0 (parseLoop s 0) (drop (argNum p) a)"
      using splice_shift0 [of "[c]" s "''%%''" "parseLoop s 0"] parseLoop_text_head [OF True, of s]
      by simp
    show ?thesis
      unfolding escapePercents_text_head [OF True] sp using True ih by simp
  next
    case pc: False
    then have c: "c = CHR ''%''" by simp
    show ?thesis
    proof (cases "s \<noteq> [] \<and> hd s = CHR ''%''")
      case True
      then obtain s' where s: "s = CHR ''%'' # s'" by (cases s) auto
      with pc "2.prems" have ph: "plainHoles s' = Some n" by simp
      let ?p1 = "p\<lparr>goodArgNum := True\<rparr>"
      from "2.IH"(2) [OF pc True, of n ?p1] ph s "2.prems"(2,3)
      have ih: "doPrintf a ?p1 (escapePercents s')
          = Some (splice s' ''%%'' 0 (parseLoop s' 0) (drop (argNum p) a))" by simp
      have sp: "splice (c # s) ''%%'' 0 (parseLoop (c # s) 0) (drop (argNum p) a)
          = ''%%'' @ splice s' ''%%'' 0 (parseLoop s' 0) (drop (argNum p) a)"
        unfolding c s parseLoop_literal_head
        using splice_shift [of "[CHR ''%'', CHR ''%'']" s' "''%%''" 0 "parseLoop s' 0"]
        by (simp add: numeral_2_eq_2)
      have "doPrintf a p (''%%%%'' @ escapePercents s')
          = map_option (\<lambda>r. ''%%'' @ r) (doPrintf a ?p1 (escapePercents s'))"
        by (cases "doPrintf a ?p1 (escapePercents s')") (simp_all add: fmtDirective_percent)
      with ih sp show ?thesis unfolding c s by simp
    next
      case False
      with pc "2.prems" obtain k m where k: "plainLen s = Some k"
        and m: "plainHoles (drop k s) = Some m" "n = Suc m"
        by (auto split: option.splits if_splits)
      from plainLen_text [OF k] have kl: "k \<le> length s" by simp
      from "2.prems"(2) m have lt: "argNum p < length a" by simp
      let ?p' = "p\<lparr>goodArgNum := True, argNum := argNum p + 1\<rparr>"
      from "2.prems"(2,3) m have pr: "length a = argNum ?p' + m" "\<not> reordered ?p'" by simp_all
      note ih = "2.IH"(3) [OF pc False k m(1) pr]
      have dr: "drop (argNum p) a = a ! argNum p # drop (argNum p + 1) a"
        using lt by (simp add: Cons_nth_drop_Suc)
      have sp: "splice (c # s) ''%%'' 0 (parseLoop (c # s) 0) (drop (argNum p) a)
          = a ! argNum p @ splice (drop k s) ''%%'' 0 (parseLoop (drop k s) 0) (drop (argNum p + 1) a)"
        unfolding c parseLoop_plain_head [OF k] dr
        using splice_shift [of "CHR ''%'' # take k s" "drop k s" "''%%''" 0 "parseLoop (drop k s) 0"] kl
        by simp
      have "doPrintf a p (CHR ''%'' # take k s @ escapePercents (drop k s))
          = map_option (\<lambda>r. a ! argNum p @ r) (doPrintf a ?p' (escapePercents (drop k s)))"
        by (cases "doPrintf a ?p' (escapePercents (drop k s))")
          (simp_all add: fmtDirective_plain [OF k lt])
      with ih sp show ?thesis unfolding c escapePercents_plain [OF k] by simp
    qed
  qed
qed

section \<open>The legacy path\<close>

text \<open>The running offsets of consecutive blocks of the given lengths.\<close>

fun blockStarts :: "int \<Rightarrow> nat list \<Rightarrow> int list" where
  "blockStarts s [] = []"
| "blockStarts s (l # ls) = s # blockStarts (s + int l) ls"

lemma length_blockStarts [simp]: "length (blockStarts s ls) = length ls"
  by (induction ls arbitrary: s) simp_all


lemma concat_blockStarts:
  "\<forall>k \<in> set ks. idx k = map int [0..<len k] \<Longrightarrow>
   concat (map (\<lambda>(off, k). map (\<lambda>i. b (off + i)) (idx k)) (zip (blockStarts s (map len ks)) ks))
     = map (\<lambda>i. b (s + int i)) [0..<sum_list (map len ks)]"
proof (induction ks arbitrary: s)
  case Nil
  then show ?case by simp
next
  case (Cons k ks)
  from Cons.prems have ik: "idx k = map int [0..<len k]"
    and rest: "\<forall>k \<in> set ks. idx k = map int [0..<len k]" by simp_all
  note ih = Cons.IH [OF rest, of "s + int (len k)"]
  have shift: "[a..<a + m] = map (\<lambda>i. a + i) [0..<m]" for a m :: nat
    by (induction m) simp_all
  have "[0..<len k + sum_list (map len ks)] = [0..<len k] @ [len k..<len k + sum_list (map len ks)]"
    by (simp only: upt_add_eq_append [OF le0] add_0)
  also have "\<dots> = [0..<len k] @ map (\<lambda>i. len k + i) [0..<sum_list (map len ks)]"
    by (simp only: shift)
  finally have "map (\<lambda>i. b (s + int i)) [0..<len k + sum_list (map len ks)]
      = map (\<lambda>i. b (s + int i)) [0..<len k]
        @ map (\<lambda>i. b (s + int (len k) + int i)) [0..<sum_list (map len ks)]"
    by (simp add: comp_def add.assoc)
  with ih ik show ?case by (simp add: comp_def)
qed

lemma anyIndexedArg_False:
  "anyIndexedArg heap as = Inr False \<Longrightarrow> QueryPtr p \<in> set as \<Longrightarrow>
   \<exists>q. heap p = Some q \<and> argIndices q = None"
  by (induction heap as rule: anyIndexedArg.induct) (auto split: option.splits if_splits)

text \<open>What one argument contributes in the loop of the legacy path.\<close>

definition argFmt :: "'v heap \<Rightarrow> 'v arg \<Rightarrow> string" where
  "argFmt heap a =
     (case a of Leaf v \<Rightarrow> ''%s'' | QueryPtr p \<Rightarrow> (case heap p of Some q \<Rightarrow> fmt q | None \<Rightarrow> []))"

definition argArgs :: "'v heap \<Rightarrow> 'v arg \<Rightarrow> 'v list" where
  "argArgs heap a =
     (case a of Leaf v \<Rightarrow> [v] | QueryPtr p \<Rightarrow> (case heap p of Some q \<Rightarrow> args q | None \<Rightarrow> []))"

lemma flattenArgs_closed:
  "anyIndexedArg heap as = Inr False \<Longrightarrow>
   flattenArgs heap as = Inr (map (argFmt heap) as, concat (map (argArgs heap) as))"
  by (induction heap as rule: anyIndexedArg.induct)
     (auto simp add: argFmt_def argArgs_def split: option.splits if_splits)

lemma refFmt_refOf: "j < length as \<Longrightarrow> refFmt heap (refOf as (int j)) = argFmt heap (as ! j)"
  by (cases "as ! j") (simp_all add: refOf_def argFmt_def)

lemma refArgs_refOf: "j < length as \<Longrightarrow> refArgs heap as (refOf as (int j)) = argArgs heap (as ! j)"
  by (cases "as ! j") (simp_all add: refOf_def argArgs_def)

text \<open>
  The legacy path on a plain template with one argument per directive, the nested queries
  among the arguments well-formed: the arguments are flattened left to right, and rendering
  replaces every directive by the rendering of its argument, shifted by the number of
  arguments before it.
\<close>

lemma Sprintf_legacy_render:
  assumes wa: "\<forall>p q. QueryPtr p \<in> set as \<longrightarrow> heap p = Some q \<longrightarrow> wellFormed q"
    and ne: "needsExplicitPath heap format as = Inr False"
    and ph: "plainHoles format = Some (length as)"
    and ks: "ks = map (refOf as) (resolveAll (parseDirectives format) 0)"
    and offs: "offs = blockStarts 0 (map (\<lambda>k. length (refArgs heap as k)) ks)"
  shows "\<exists>r. Sprintf heap format as = Inr r \<and> wellFormed r \<and> argIndices r = None
       \<and> args r = concat (map (refArgs heap as) ks)
       \<and> fmt r = splice format ''%%'' 0 (parseDirectives format) (map (refFmt heap) ks)
       \<and> (\<forall>bv. Query_Query r bv
             = Some (splice format ''%'' 0 (parseDirectives format)
                       (map (\<lambda>(off, k). renderRef heap bv off k) (zip offs ks))))"
proof -
  let ?ds = "parseDirectives format"
  let ?n = "length as"
  from ne have ai: "anyIndexedArg heap as = Inr False"
    by (auto simp add: needsExplicitPath_def split: sum.splits bool.splits)
  from plain_scan [OF ph] have nv: "length (verbs ?ds) = ?n" and nd: "droppedMarker format 0 = None"
    and ni: "\<not> list_ex hasIndex ?ds" by (simp_all add: parseDirectives_def)
  from ni have "\<forall>e \<in> set ?ds. \<not> hasIndex e" by (simp add: list_ex_iff)
  from resolveAll_implicit [OF this, of 0] nv
  have rs: "resolveAll ?ds 0 = map int [0..<?n]" by simp
  have ksj: "ks = map (\<lambda>j. refOf as (int j)) [0..<?n]" unfolding ks rs by (simp add: comp_def)
  have lk: "length ks = ?n" by (simp add: ksj)
  have kn: "\<And>j. j < ?n \<Longrightarrow> ks ! j = refOf as (int j)" by (simp add: ksj)
  let ?fs = "map (refFmt heap) ks"
  let ?av = "concat (map (refArgs heap as) ks)"
  have fs: "?fs = map (argFmt heap) as"
    by (rule nth_equalityI) (simp_all add: lk kn refFmt_refOf)
  have av: "map (refArgs heap as) ks = map (argArgs heap) as"
    by (rule nth_equalityI) (simp_all add: lk kn refArgs_refOf)
  from flattenArgs_closed [OF ai] fs av
  have fl: "flattenArgs heap as = Inr (?fs, ?av)" by simp
  have p1: "fmtSprintf (escapePercents format) ?fs = Some (splice format ''%%'' 0 ?ds ?fs)"
    unfolding fmtSprintf_def parseDirectives_def
    using doPrintf_pass1 [OF ph, of ?fs "\<lparr>argNum = 0, reordered = False, goodArgNum = True\<rparr>"] lk
    by simp
  define r where "r = \<lparr>fmt = splice format ''%%'' 0 ?ds ?fs, args = ?av, argIndices = None\<rparr>"
  have sp: "Sprintf heap format as = Inr r"
    by (simp add: Sprintf_def ne fl p1 r_def)
  let ?tokss = "\<lambda>b. map (\<lambda>(off, k). map (\<lambda>i. b (off + i)) (refIndices heap k)) (zip offs ks)"
  from parseDirectives_gaps [of format] nd
  have g: "gapsClean format 0 ?ds" and t: "CHR ''%'' \<notin> set (drop (finalEnd 0 ?ds) format)"
    by simp_all
  have lo: "length offs = ?n" by (simp add: offs lk)
  have l1: "length ?fs = length (verbs ?ds)" by (simp add: lk nv)
  have l2: "\<And>b. length (?tokss b) = length (verbs ?ds)" by (simp add: lk lo nv)
  have c: "\<forall>j < length ?fs. cleanHoles (?fs ! j) = Some (length (?tokss b ! j))" for b
  proof (intro allI impI)
    fix j assume "j < length ?fs"
    then have j: "j < ?n" by (simp add: lk)
    have "cleanHoles (refFmt heap (ks ! j)) = Some (length (refIndices heap (ks ! j)))"
    proof (cases "as ! j")
      case (Leaf v)
      with j show ?thesis by (simp add: kn refOf_def)
    next
      case (QueryPtr p)
      with j have m: "QueryPtr p \<in> set as" by (metis nth_mem)
      from anyIndexedArg_False [OF ai m] obtain q where q: "heap p = Some q" by blast
      with wa m have "wellFormed q" by blast
      with QueryPtr j q show ?thesis by (simp add: kn refOf_def wellFormed_def)
    qed
    with j show "cleanHoles (?fs ! j) = Some (length (?tokss b ! j))" by (simp add: lk lo)
  qed
  note sc = splice_clean [OF g t l1 l2 c]
  have ix: "\<forall>k \<in> set ks. refIndices heap k = map int [0..<length (refArgs heap as k)]"
  proof
    fix k assume "k \<in> set ks"
    then obtain j where j: "j < ?n" and k: "k = refOf as (int j)" by (auto simp add: ksj)
    show "refIndices heap k = map int [0..<length (refArgs heap as k)]"
    proof (cases "as ! j")
      case (Leaf v)
      with k show ?thesis by (simp add: refOf_def)
    next
      case (QueryPtr p)
      with j have "QueryPtr p \<in> set as" by (metis nth_mem)
      from anyIndexedArg_False [OF ai this] obtain q where "heap p = Some q" "argIndices q = None"
        by blast
      with QueryPtr k show ?thesis by (simp add: refOf_def normIndices_def)
    qed
  qed
  have ls: "sum_list (map (\<lambda>k. length (refArgs heap as k)) ks) = length ?av"
    by (simp add: length_concat comp_def)
  have ct: "\<And>b. concat (?tokss b) = map (\<lambda>i. b (int i)) [0..<length ?av]"
    using concat_blockStarts [OF ix, of _ 0] unfolding offs ls by simp
  have zp: "\<And>b. map (\<lambda>(f, toks). fill f toks) (zip ?fs (?tokss b))
      = map (\<lambda>(off, k). renderRef heap b off k) (zip offs ks)"
    by (rule nth_equalityI) (simp_all add: lk lo renderRef_def)
  have fr: "fmt r = splice format ''%%'' 0 ?ds ?fs" by (simp add: r_def)
  have nr: "normIndices r = map int [0..<length ?av]" by (simp add: r_def normIndices_def)
  let ?b0 = "\<lambda>i::int. ([]::string)"
  have len: "length (concat (?tokss ?b0)) = length ?av"
    using arg_cong [OF ct [of ?b0], of length] by simp
  from sc [of ?b0]
  have "cleanHoles (splice format ''%%'' 0 ?ds ?fs) = Some (length (concat (?tokss ?b0)))"
    by (rule conjunct1)
  then have ch: "cleanHoles (fmt r) = Some (length ?av)"
    unfolding len fr .
  have wfr: "wellFormed r"
    using ch nr by (simp add: wellFormed_def r_def)
  have qq: "Query_Query r bv = Some (splice format ''%'' 0 ?ds
        (map (\<lambda>(off, k). renderRef heap bv off k) (zip offs ks)))" for bv
  proof -
    from Query_Query_wf [OF wfr, of bv] nr
    have "Query_Query r bv = Some (fill (fmt r) (map (\<lambda>i. bv (int i)) [0..<length ?av]))"
      by (simp add: comp_def)
    also have "fill (fmt r) (map (\<lambda>i. bv (int i)) [0..<length ?av])
        = splice format ''%'' 0 ?ds (map (\<lambda>(off, k). renderRef heap bv off k) (zip offs ks))"
      using sc [of bv] ct [of bv] zp [of bv] fr by simp
    finally show ?thesis .
  qed
  show ?thesis
  proof (intro exI [of _ r] conjI allI)
    show "Sprintf heap format as = Inr r" by (rule sp)
    show "wellFormed r" by (rule wfr)
    show "argIndices r = None" by (simp add: r_def)
    show "args r = ?av" by (simp add: r_def)
    show "fmt r = splice format ''%%'' 0 ?ds ?fs" by (rule fr)
    fix bv
    show "Query_Query r bv = Some (splice format ''%'' 0 ?ds
        (map (\<lambda>(off, k). renderRef heap bv off k) (zip offs ks)))" by (rule qq)
  qed
qed

lemma plain_resolveAll:
  assumes "plainHoles format = Some n"
  shows "resolveAll (parseDirectives format) 0 = map int [0..<n]"
proof -
  from plain_scan [OF assms] have nv: "length (verbs (parseDirectives format)) = n"
    and ni: "\<not> list_ex hasIndex (parseDirectives format)" by (simp_all add: parseDirectives_def)
  from ni have "\<forall>e \<in> set (parseDirectives format). \<not> hasIndex e" by (simp add: list_ex_iff)
  from resolveAll_implicit [OF this, of 0] nv show ?thesis by simp
qed

lemma anyIndexedArg_leaves: "anyIndexedArg heap (map Leaf vs) = Inr False"
  by (induction vs) simp_all

lemma blockStarts_ones:
  "\<forall>l \<in> set ls. l = 1 \<Longrightarrow> blockStarts s ls = map (\<lambda>i. s + int i) [0..<length ls]"
proof (induction ls arbitrary: s)
  case Nil
  then show ?case by simp
next
  case (Cons l ls)
  then have l: "l = 1" and ih: "blockStarts (s + 1) ls = map (\<lambda>i. s + 1 + int i) [0..<length ls]"
    by simp_all
  have "map (\<lambda>i. s + int i) [0..<Suc (length ls)]
      = s # map (\<lambda>i. s + int (Suc i)) [0..<length ls]"
    by (simp only: map_upt_Suc) simp
  with l ih show ?case by (simp add: add.assoc)
qed



section \<open>Rendering on the identity path\<close>

text \<open>
  C8, as amended. Let the template be plain: every marker starts the literal \<^verbatim>\<open>%%\<close> or a
  directive made of flags among \<^verbatim>\<open>#0+-\<close> and the space, a width and an optional precision
  of at most seven decimal digits each, and an ASCII letter other than \<^verbatim>\<open>T\<close>, \<^verbatim>\<open>p\<close> and
  \<^verbatim>\<open>w\<close> as verb (no explicit index, no wildcard, no apostrophe, no trailing marker). Let
  the arguments be leaves, as many as the template has directives. Then the scanner counts
  one placeholder per argument; \<^verbatim>\<open>Sprintf\<close> returns the query whose template has \<^verbatim>\<open>%s\<close>
  for every directive and keeps every literal, whose arguments are the given ones in their
  order, and which has no index list; and rendering it with a dialect \<open>bv\<close> replaces the
  placeholders, in source order, by \<open>bv 0\<close>, \<open>bv 1\<close>, ..., and every literal by one marker
  character: with the numbered dialect by \<^verbatim>\<open>$1\<close>, \<^verbatim>\<open>$2\<close>, ... in ascending order.
\<close>

theorem identity_path_rendering:
  assumes ph: "plainHoles format = Some (length vs)"
  shows "placeholders format = length vs
     \<and> Sprintf heap format (map Leaf vs)
       = Inr \<lparr>fmt = splice format ''%%'' 0 (parseDirectives format) (replicate (length vs) ''%s''),
              args = vs, argIndices = None\<rparr>
     \<and> Query_Query \<lparr>fmt = splice format ''%%'' 0 (parseDirectives format)
                              (replicate (length vs) ''%s''),
                      args = vs, argIndices = None\<rparr> bv
       = Some (splice format ''%'' 0 (parseDirectives format)
                 (map (\<lambda>i. bv (int i)) [0..<length vs]))"
proof -
  let ?as = "map Leaf vs"
  let ?n = "length vs"
  let ?ks = "map (refOf ?as) (resolveAll (parseDirectives format) 0)"
  let ?offs = "blockStarts 0 (map (\<lambda>k. length (refArgs heap ?as k)) ?ks)"
  from plain_scan [OF ph] have "\<not> list_ex hasIndex (parseDirectives format)"
    by (simp add: parseDirectives_def)
  then have ne: "needsExplicitPath heap format ?as = Inr False"
    by (simp add: needsExplicitPath_def anyIndexedArg_leaves)
  have ks: "?ks = map (\<lambda>j. LeafRef (int j)) [0..<?n]"
    unfolding plain_resolveAll [OF ph] by (simp add: refOf_def)
  have fs: "map (refFmt heap) ?ks = replicate ?n ''%s''"
    unfolding ks by (simp add: comp_def map_replicate_const)
  have ra: "map (refArgs heap ?as) ?ks = map (\<lambda>v. [v]) vs"
    unfolding ks by (rule nth_equalityI) simp_all
  have av: "concat (map (refArgs heap ?as) ?ks) = vs"
    unfolding ra by (induction vs) simp_all
  have "\<forall>l \<in> set (map (\<lambda>k. length (refArgs heap ?as k)) ?ks). l = 1"
    unfolding ks by simp
  from blockStarts_ones [OF this, of 0] have offs: "?offs = map int [0..<?n]"
    by (simp add: ks)
  have pieces: "map (\<lambda>(off, k). renderRef heap bv off k) (zip ?offs ?ks)
      = map (\<lambda>i. bv (int i)) [0..<?n]"
    unfolding offs unfolding ks by (rule nth_equalityI) (simp_all add: renderRef_def)
  have wa: "\<forall>p q. QueryPtr p \<in> set ?as \<longrightarrow> heap p = Some q \<longrightarrow> wellFormed q" by auto
  have len: "length ?as = ?n" by simp
  from Sprintf_legacy_render [OF wa ne ph [folded len] refl refl]
  obtain r where sp: "Sprintf heap format ?as = Inr r" and ai: "argIndices r = None"
    and ar: "args r = concat (map (refArgs heap ?as) ?ks)"
    and fr: "fmt r = splice format ''%%'' 0 (parseDirectives format) (map (refFmt heap) ?ks)"
    and qq: "Query_Query r bv = Some (splice format ''%'' 0 (parseDirectives format)
                       (map (\<lambda>(off, k). renderRef heap bv off k) (zip ?offs ?ks)))"
    by blast
  from ai ar fr have r: "r = \<lparr>fmt = splice format ''%%'' 0 (parseDirectives format)
        (replicate ?n ''%s''), args = vs, argIndices = None\<rparr>"
    unfolding fs av by simp
  from plain_scan [OF ph] have pc: "placeholders format = ?n"
    by (simp add: placeholders_def parseDirectives_def)
  from pc sp qq show ?thesis unfolding pieces unfolding r by simp
qed

text \<open>Example 1 of the spec: \<^verbatim>\<open>Sprintf("a = %s AND b = %d", "foo", 1)\<close>.\<close>

theorem identity_path_rendering_witness:
  "Sprintf emptyHeap ''a = %s AND b = %d'' [Leaf (GoString ''foo''), Leaf (GoInt 1)]
     = Inr \<lparr>fmt = ''a = %s AND b = %s'', args = [GoString ''foo'', GoInt 1], argIndices = None\<rparr>
   \<and> Query_Query \<lparr>fmt = ''a = %s AND b = %s'', args = [GoString ''foo'', GoInt 1],
                    argIndices = None\<rparr> PostgresBindVar
     = Some ''a = $1 AND b = $2''"
proof -
  let ?f = "''a = %s AND b = %d''"
  let ?vs = "[GoString ''foo'', GoInt 1]"
  have ph: "plainHoles ?f = Some (length ?vs)" by code_simp
  have t: "splice ?f ''%%'' 0 (parseDirectives ?f) (replicate (length ?vs) ''%s'')
      = ''a = %s AND b = %s''" by code_simp
  have u: "splice ?f ''%'' 0 (parseDirectives ?f) (map (\<lambda>i. PostgresBindVar (int i)) [0..<length ?vs])
      = ''a = $1 AND b = $2''" by code_simp
  from identity_path_rendering [OF ph, of emptyHeap PostgresBindVar] show ?thesis
    unfolding t u by simp
qed

text \<open>
  C8 as stated fails for a template with a wildcard width, which the scanner takes as one
  placeholder: \<^verbatim>\<open>fmt.Sprintf\<close> takes an argument for the width and writes its error text.
  \<^verbatim>\<open>Sprintf("a = %*d", 8, 1)\<close> renders to \<^verbatim>\<open>a = $1(BADWIDTH)$2\<close>, and with the one
  argument \<^verbatim>\<open>1\<close> to \<^verbatim>\<open>a = $1(BADWIDTH)%!!(MISSING)d(MISSING)\<close>.
\<close>

theorem wildcard_width_breaks_rendering:
  "parseDirectives ''a = %*d''
     = [\<lparr>start = 4, endpos = 7, hasIndex = False, index = 0, isLiteral = False\<rparr>]
   \<and> Sprintf emptyHeap ''a = %*d'' [Leaf (GoInt 8), Leaf (GoInt 1)]
     = Inr \<lparr>fmt = ''a = %!(BADWIDTH)%s'', args = [GoInt 8, GoInt 1], argIndices = None\<rparr>
   \<and> Query_Query \<lparr>fmt = ''a = %!(BADWIDTH)%s'', args = [GoInt 8, GoInt 1], argIndices = None\<rparr>
        PostgresBindVar
     = Some ''a = $1(BADWIDTH)$2''
   \<and> Sprintf emptyHeap ''a = %*d'' [Leaf (GoInt 1)]
     = Inr \<lparr>fmt = ''a = %!(BADWIDTH)%!d(MISSING)'', args = [GoInt 1], argIndices = None\<rparr>
   \<and> Query_Query \<lparr>fmt = ''a = %!(BADWIDTH)%!d(MISSING)'', args = [GoInt 1], argIndices = None\<rparr>
        PostgresBindVar
     = Some ''a = $1(BADWIDTH)%!!(MISSING)d(MISSING)''"
  by code_simp

section \<open>Nested queries in the result\<close>








end
